theory Spec2Isabelle
  imports Complex_Main "HOL-Library.AList"
begin

section \<open>The real-time market-data client\<close>

text \<open>
  A shallow embedding of \<^verbatim>\<open>lib/websocket/client.ts\<close> (class \<^verbatim>\<open>WebSocketClient\<close>) and of the
  candle cache \<^verbatim>\<open>getCandlesWithCache\<close> of the market-data hook. The client is a record of the
  fields of the class; every method is a function from client to client. JavaScript runs
  one task at a time, so a method or an event handler is one state transformer.

  Function objects are compared by identity in the source (\<^verbatim>\<open>Set.add\<close>, \<^verbatim>\<open>socket.off\<close>), so a
  callback of a consumer is a number, and a closure created by the client is a constructor
  that carries what identifies the closure.

  What the model takes from outside the source: the socket is socket.io's event emitter,
  described where it is defined below; the functions of consumers are opaque (a call is
  recorded and does not call back into the client); the client talks to the socket it
  holds, and the reconnection that socket.io does by itself is not part of the model; time
  is not measured, a timer that is set fires as a task of its own.
\<close>

subsection \<open>Values on the wire\<close>

type_synonym symbol = string

text \<open>Payloads whose content no modelled path inspects are opaque tokens.\<close>

datatype tick_data = TickData nat
datatype candle = Candle nat
datatype order_book = OrderBookData nat
datatype account = AccountInfoData nat

datatype event_name =
    Ev_connected | Ev_disconnected | Ev_error | Ev_tick | Ev_candles | Ev_order_book
  | Ev_account_info | Ev_market_summary | Ev_health | Ev_subscribed | Ev_unsubscribed
  | Ev_symbols

text \<open>
  An event with its payload, as typed by \<^verbatim>\<open>WebSocketEventMap\<close> (time stamps left out).
  \<^verbatim>\<open>candles\<close> is optional because the handler reads it as \<^verbatim>\<open>data.candles || []\<close>.
\<close>

datatype event =
    Connected
  | Disconnected "string option"
  | ErrorEvent string string "nat option"
  | Tick symbol tick_data
  | Candles symbol string "candle list option"
  | OrderBook symbol order_book
  | AccountInfo account
  | MarketSummary nat
  | Health nat
  | Subscribed symbol
  | Unsubscribed symbol
  | Symbols "symbol list"

fun name_of :: "event \<Rightarrow> event_name" where
  "name_of Connected = Ev_connected"
| "name_of (Disconnected _) = Ev_disconnected"
| "name_of (ErrorEvent _ _ _) = Ev_error"
| "name_of (Tick _ _) = Ev_tick"
| "name_of (Candles _ _ _) = Ev_candles"
| "name_of (OrderBook _ _) = Ev_order_book"
| "name_of (AccountInfo _) = Ev_account_info"
| "name_of (MarketSummary _) = Ev_market_summary"
| "name_of (Health _) = Ev_health"
| "name_of (Subscribed _) = Ev_subscribed"
| "name_of (Unsubscribed _) = Ev_unsubscribed"
| "name_of (Symbols _) = Ev_symbols"

text \<open>Messages the client sends with \<^verbatim>\<open>socket.emit\<close>.\<close>

datatype out_msg =
    Subscribe symbol string
  | Unsubscribe symbol
  | GetCandles symbol string nat
  | GetOrderBook symbol nat
  | GetAccountInfo
  | GetSymbols
  | Ping

subsection \<open>Promises of the pull queries\<close>

datatype js_value =
    VUndefined
  | VSymbols "symbol list"
  | VCandles "candle list"
  | VOrderBook order_book
  | VAccount account

datatype js_error = Error string

datatype promise_state = Pending | Resolved js_value | Rejected js_error

datatype query = QSymbols | QCandles symbol string | QOrderBook symbol | QAccountInfo

text \<open>
  One \<^verbatim>\<open>new Promise(...)\<close> of a pull query: the variables its closures capture (the query
  and its key), the state of the promise, whether its \<^verbatim>\<open>setTimeout\<close> timer is armed, and the
  cache key of the \<^verbatim>\<open>.then/.catch\<close> chain that \<^verbatim>\<open>getCandlesWithCache\<close> attaches to it.
\<close>

record pull =
  pl_query :: query
  pl_state :: promise_state
  pl_timer :: bool
  pl_then :: "string option"

subsection \<open>Listeners\<close>

text \<open>
  \<open>User n\<close> is a function of a consumer; \<open>Handler r\<close> is the closure \<^verbatim>\<open>handler\<close> of pull query
  \<open>r\<close>; \<open>OnceHandler i ev cb\<close> is the closure \<^verbatim>\<open>onceHandler\<close> of the \<open>i\<close>-th call of \<^verbatim>\<open>once\<close>.
\<close>

datatype callback = User nat | Handler nat | OnceHandler nat event_name callback

text \<open>
  What is registered on the socket for one event name: the arrow function of
  \<^verbatim>\<open>setupSocketListeners\<close> that forwards to \<^verbatim>\<open>this.emit\<close>, its tick handler, a function added
  with \<^verbatim>\<open>socket.on\<close>, and the one-shot wrapper that \<^verbatim>\<open>socket.once\<close> makes around a function.
\<close>

datatype sock_listener = Forward | TickDispatch | Direct callback | OnceWrap callback

record socket_io =
  listeners :: "event_name \<Rightarrow> sock_listener list"
  sock_connected :: bool

datatype effect =
    Send out_msg
  | Emit event
  | Invoke nat event
  | InvokeTick nat tick_data
  | ReconnectIn rat

subsection \<open>The client\<close>

record client =
  socket :: "socket_io option"
  subscribers :: "(symbol \<times> nat list) list"
  isConnecting :: bool
  isConnected :: bool
  pendingSubscriptions :: "symbol list"
  reconnectAttempts :: nat
  reconnectTimer :: "nat option"
  pingInterval :: bool
  eventListeners :: "event_name \<Rightarrow> callback list"
  connectionPromise :: "bool option option"
  connectionResolve :: bool
  timers :: "(nat \<times> rat) list"
  next_timer :: nat
  next_once :: nat
  pulls :: "pull list"
  microtasks :: "nat list"
  candlesCache :: "(string \<times> js_value) list"
  candlesPromises :: "(string \<times> nat) list"
  cacheTimers :: "string list"
  trace :: "effect list"

text \<open>
  Beyond the fields of the class: \<open>timers\<close> are the live \<^verbatim>\<open>setTimeout\<close> timers of
  \<^verbatim>\<open>scheduleReconnection\<close> with their delays (\<open>reconnectTimer\<close> is the handle of the last one),
  \<open>pulls\<close> the promises of the pull queries, \<open>microtasks\<close> the promise reactions that are due,
  \<open>candlesCache\<close>, \<open>candlesPromises\<close> the two module-level maps of the hook, \<open>cacheTimers\<close> the
  pending 30 s invalidations, and \<open>trace\<close> what the client did, in order. \<open>connectionPromise\<close>
  is \<open>None\<close> for \<^verbatim>\<open>null\<close>, \<open>Some None\<close> for a pending promise and \<open>Some (Some b)\<close> for one resolved to
  \<open>b\<close>. The fields \<^verbatim>\<open>lastConnectionError\<close> and \<^verbatim>\<open>connectionStartTime\<close> are only written.
\<close>

definition maxReconnectAttempts :: nat where
  "maxReconnectAttempts = 10"

definition reconnectDelay :: rat where
  "reconnectDelay = 5000"

definition reconnectDelayMultiplier :: rat where
  "reconnectDelayMultiplier = 3 / 2"

subsection \<open>Sets and maps that keep insertion order\<close>

definition set_add :: "'a \<Rightarrow> 'a list \<Rightarrow> 'a list" where
  "set_add x xs = (if x \<in> set xs then xs else xs @ [x])"

fun remove_first :: "('a \<Rightarrow> bool) \<Rightarrow> 'a list \<Rightarrow> 'a list" where
  "remove_first P [] = []"
| "remove_first P (x # xs) = (if P x then xs else x # remove_first P xs)"

subsection \<open>Strings\<close>

fun starts_with :: "string \<Rightarrow> string \<Rightarrow> bool" where
  "starts_with [] xs = True"
| "starts_with (p # ps) [] = False"
| "starts_with (p # ps) (x # xs) = (p = x \<and> starts_with ps xs)"

fun str_includes :: "string \<Rightarrow> string \<Rightarrow> bool" where
  "str_includes [] sub = (sub = [])"
| "str_includes (x # xs) sub = (starts_with sub (x # xs) \<or> str_includes xs sub)"

definition digit :: "nat \<Rightarrow> char" where
  "digit d = char_of (48 + d)"

fun show_nat :: "nat \<Rightarrow> string" where
  "show_nat n = (if n < 10 then [digit n] else show_nat (n div 10) @ [digit (n mod 10)])"

declare show_nat.simps [simp del]

subsection \<open>The socket (socket.io's event emitter)\<close>

text \<open>
  \<^verbatim>\<open>socket.on\<close> appends a listener; \<^verbatim>\<open>socket.once\<close> appends a wrapper that removes itself and
  calls the function; \<^verbatim>\<open>socket.off(ev, fn)\<close> removes the first listener that is \<open>fn\<close> or a
  wrapper of \<open>fn\<close>; an inbound event calls a copy of the listener list in order.
\<close>

definition sock_on :: "event_name \<Rightarrow> callback \<Rightarrow> socket_io \<Rightarrow> socket_io" where
  "sock_on ev fn sk = sk\<lparr>listeners := (listeners sk)(ev := listeners sk ev @ [Direct fn])\<rparr>"

definition sock_once :: "event_name \<Rightarrow> callback \<Rightarrow> socket_io \<Rightarrow> socket_io" where
  "sock_once ev fn sk = sk\<lparr>listeners := (listeners sk)(ev := listeners sk ev @ [OnceWrap fn])\<rparr>"

definition sock_off :: "event_name \<Rightarrow> callback \<Rightarrow> socket_io \<Rightarrow> socket_io" where
  "sock_off ev fn sk =
     sk\<lparr>listeners := (listeners sk)
        (ev := remove_first (\<lambda>l. l = Direct fn \<or> l = OnceWrap fn) (listeners sk ev))\<rparr>"

definition sock_off_wrapper :: "event_name \<Rightarrow> callback \<Rightarrow> socket_io \<Rightarrow> socket_io" where
  "sock_off_wrapper ev fn sk =
     sk\<lparr>listeners := (listeners sk)(ev := remove_first (\<lambda>l. l = OnceWrap fn) (listeners sk ev))\<rparr>"

text \<open>\<^verbatim>\<open>this.socket.emit(...)\<close>, called only where the socket is known not to be null.\<close>

definition send :: "out_msg \<Rightarrow> client \<Rightarrow> client" where
  "send m s = s\<lparr>trace := trace s @ [Send m]\<rparr>"

subsection \<open>Settling a promise\<close>

text \<open>
  \<^verbatim>\<open>resolve\<close> and \<^verbatim>\<open>reject\<close> of a promise do nothing once it is settled. When the promise has a
  \<^verbatim>\<open>.then/.catch\<close> chain, settling it queues the reaction as a microtask.
\<close>

definition settle :: "nat \<Rightarrow> promise_state \<Rightarrow> client \<Rightarrow> client" where
  "settle r v s =
     (if r < length (pulls s) \<and> pl_state (pulls s ! r) = Pending
      then s\<lparr>pulls := (pulls s)[r := (pulls s ! r)\<lparr>pl_state := v\<rparr>],
             microtasks := (if pl_then (pulls s ! r) = None then microtasks s
                            else microtasks s @ [r])\<rparr>
      else s)"

definition resolve :: "nat \<Rightarrow> js_value \<Rightarrow> client \<Rightarrow> client" where
  "resolve r v s = settle r (Resolved v) s"

definition reject :: "nat \<Rightarrow> js_error \<Rightarrow> client \<Rightarrow> client" where
  "reject r e s = settle r (Rejected e) s"

definition clearTimeout :: "nat \<Rightarrow> client \<Rightarrow> client" where
  "clearTimeout r s =
     (if r < length (pulls s) then s\<lparr>pulls := (pulls s)[r := (pulls s ! r)\<lparr>pl_timer := False\<rparr>]\<rparr>
      else s)"

subsection \<open>Event emitter methods\<close>

definition on :: "event_name \<Rightarrow> callback \<Rightarrow> client \<Rightarrow> client" where
  "on ev cb s =
     (let s1 = s\<lparr>eventListeners := (eventListeners s)(ev := set_add cb (eventListeners s ev))\<rparr>
      in case socket s1 of
           Some sk \<Rightarrow> if isConnected s1 then s1\<lparr>socket := Some (sock_on ev cb sk)\<rparr> else s1
         | None \<Rightarrow> s1)"

definition off :: "event_name \<Rightarrow> callback option \<Rightarrow> client \<Rightarrow> client" where
  "off ev cbo s =
     (let s1 = (case cbo of
                  Some cb \<Rightarrow>
                    s\<lparr>eventListeners := (eventListeners s)(ev := removeAll cb (eventListeners s ev))\<rparr>
                | None \<Rightarrow> s\<lparr>eventListeners := (eventListeners s)(ev := [])\<rparr>)
      in case socket s1 of
           Some sk \<Rightarrow> (case cbo of Some cb \<Rightarrow> s1\<lparr>socket := Some (sock_off ev cb sk)\<rparr> | None \<Rightarrow> s1)
         | None \<Rightarrow> s1)"

text \<open>\<^verbatim>\<open>this.socket?.off(ev, fn)\<close>, as the candle query calls it.\<close>

definition socket_off :: "event_name \<Rightarrow> callback \<Rightarrow> client \<Rightarrow> client" where
  "socket_off ev fn s =
     (case socket s of Some sk \<Rightarrow> s\<lparr>socket := Some (sock_off ev fn sk)\<rparr> | None \<Rightarrow> s)"

definition once :: "event_name \<Rightarrow> callback \<Rightarrow> client \<Rightarrow> client" where
  "once ev cb s =
     (if socket s = None then s
      else let onceHandler = OnceHandler (next_once s) ev cb;
               s1 = on ev onceHandler (s\<lparr>next_once := Suc (next_once s)\<rparr>)
           in case socket s1 of
                Some sk \<Rightarrow> s1\<lparr>socket := Some (sock_once ev onceHandler sk)\<rparr>
              | None \<Rightarrow> s1)"

subsection \<open>What a payload holds\<close>

fun ev_symbol :: "event \<Rightarrow> symbol option" where
  "ev_symbol (Tick sy _) = Some sy"
| "ev_symbol (Candles sy _ _) = Some sy"
| "ev_symbol (OrderBook sy _) = Some sy"
| "ev_symbol (Subscribed sy) = Some sy"
| "ev_symbol (Unsubscribed sy) = Some sy"
| "ev_symbol _ = None"

fun ev_timeframe :: "event \<Rightarrow> string option" where
  "ev_timeframe (Candles _ tf _) = Some tf"
| "ev_timeframe _ = None"

fun ev_candles :: "event \<Rightarrow> candle list" where
  "ev_candles (Candles _ _ (Some cs)) = cs"
| "ev_candles _ = []"

fun ev_order_book :: "event \<Rightarrow> js_value" where
  "ev_order_book (OrderBook _ ob) = VOrderBook ob"
| "ev_order_book _ = VUndefined"

fun ev_symbols :: "event \<Rightarrow> js_value" where
  "ev_symbols (Symbols syms) = VSymbols syms"
| "ev_symbols _ = VUndefined"

fun ev_account :: "event \<Rightarrow> js_value" where
  "ev_account (AccountInfo a) = VAccount a"
| "ev_account _ = VUndefined"

subsection \<open>The response handlers of the pull queries\<close>

text \<open>The closure \<^verbatim>\<open>handler\<close> of each of the four pull queries, called with an event.\<close>

definition handler :: "nat \<Rightarrow> event \<Rightarrow> client \<Rightarrow> client" where
  "handler r data s =
     (if r < length (pulls s) then
        (case pl_query (pulls s ! r) of
           QSymbols \<Rightarrow>
             resolve r (ev_symbols data) (off Ev_symbols (Some (Handler r)) (clearTimeout r s))
         | QAccountInfo \<Rightarrow>
             resolve r (ev_account data) (off Ev_account_info (Some (Handler r)) (clearTimeout r s))
         | QOrderBook symbol \<Rightarrow>
             if ev_symbol data = Some symbol
             then resolve r (ev_order_book data)
                    (off Ev_order_book (Some (Handler r)) (clearTimeout r s))
             else s
         | QCandles symbol timeframe \<Rightarrow>
             if ev_symbol data = Some symbol \<and> ev_timeframe data = Some timeframe
             then resolve r (VCandles (ev_candles data))
                    (socket_off Ev_candles (Handler r) (clearTimeout r s))
             else s)
      else s)"

text \<open>
  Calling a listener. A function of a consumer is opaque: the call is recorded and the
  client is left as it is. \<^verbatim>\<open>onceHandler\<close> removes itself and calls what it wraps.
\<close>

fun invoke :: "callback \<Rightarrow> event \<Rightarrow> client \<Rightarrow> client" where
  "invoke (User c) data s = s\<lparr>trace := trace s @ [Invoke c data]\<rparr>"
| "invoke (Handler r) data s = handler r data s"
| "invoke (OnceHandler i ev cb) data s = invoke cb data (off ev (Some (OnceHandler i ev cb)) s)"

text \<open>
  \<^verbatim>\<open>emit\<close>: \<^verbatim>\<open>Set.forEach\<close> visits the listeners in insertion order and skips one that was
  deleted before its turn. No listener of the model adds a listener.
\<close>

fun emit_each :: "callback list \<Rightarrow> event_name \<Rightarrow> event \<Rightarrow> client \<Rightarrow> client" where
  "emit_each [] ev data s = s"
| "emit_each (cb # cbs) ev data s =
     emit_each cbs ev data (if cb \<in> set (eventListeners s ev) then invoke cb data s else s)"

definition emit :: "event_name \<Rightarrow> event \<Rightarrow> client \<Rightarrow> client" where
  "emit ev data s = emit_each (eventListeners s ev) ev data (s\<lparr>trace := trace s @ [Emit data]\<rparr>)"

subsection \<open>An inbound event on the socket\<close>

definition tick_dispatch :: "event \<Rightarrow> client \<Rightarrow> client" where
  "tick_dispatch data s =
     (case data of
        Tick sy t \<Rightarrow>
          (case map_of (subscribers s) sy of
             Some callbacks \<Rightarrow> s\<lparr>trace := trace s @ map (\<lambda>cb. InvokeTick cb t) callbacks\<rparr>
           | None \<Rightarrow> s)
      | _ \<Rightarrow> s)"

definition unwrap_once :: "event_name \<Rightarrow> callback \<Rightarrow> client \<Rightarrow> client" where
  "unwrap_once ev fn s =
     (case socket s of Some sk \<Rightarrow> s\<lparr>socket := Some (sock_off_wrapper ev fn sk)\<rparr> | None \<Rightarrow> s)"

fun sock_call :: "sock_listener \<Rightarrow> event \<Rightarrow> client \<Rightarrow> client" where
  "sock_call Forward data s = emit (name_of data) data s"
| "sock_call TickDispatch data s = tick_dispatch data s"
| "sock_call (Direct fn) data s = invoke fn data s"
| "sock_call (OnceWrap fn) data s = invoke fn data (unwrap_once (name_of data) fn s)"

fun sock_each :: "sock_listener list \<Rightarrow> event \<Rightarrow> client \<Rightarrow> client" where
  "sock_each [] data s = s"
| "sock_each (l # ls) data s = sock_each ls data (sock_call l data s)"

definition inbound :: "event \<Rightarrow> client \<Rightarrow> client" where
  "inbound data s =
     (case socket s of Some sk \<Rightarrow> sock_each (listeners sk (name_of data)) data s | None \<Rightarrow> s)"

subsection \<open>Timers, heartbeat and reconnection\<close>

definition clearTimers :: "client \<Rightarrow> client" where
  "clearTimers s =
     (let s1 = (case reconnectTimer s of
                  Some t \<Rightarrow> s\<lparr>timers := filter (\<lambda>x. fst x \<noteq> t) (timers s), reconnectTimer := None\<rparr>
                | None \<Rightarrow> s)
      in if pingInterval s1 then s1\<lparr>pingInterval := False\<rparr> else s1)"

definition startPingInterval :: "client \<Rightarrow> client" where
  "startPingInterval s = (clearTimers s)\<lparr>pingInterval := True\<rparr>"

definition ping :: "client \<Rightarrow> client" where
  "ping s = (if isConnected s \<and> socket s \<noteq> None then send Ping s else s)"

definition getErrorCode :: "string \<Rightarrow> string" where
  "getErrorCode message =
     (if str_includes message ''ECONNREFUSED'' then ''ECONNREFUSED''
      else if str_includes message ''timeout'' then ''TIMEOUT''
      else if str_includes message ''Network Error'' then ''NETWORK_ERROR''
      else if str_includes message ''xhr poll error'' then ''POLL_ERROR''
      else ''UNKNOWN'')"

definition max_attempts_error :: event where
  "max_attempts_error =
     ErrorEvent ''MAX_RECONNECT_ATTEMPTS''
       (''Failed to reconnect after '' @ show_nat maxReconnectAttempts @ '' attempts'') None"

definition scheduleReconnection :: "client \<Rightarrow> client" where
  "scheduleReconnection s =
     (if reconnectAttempts s \<ge> maxReconnectAttempts then emit Ev_error max_attempts_error s
      else let n = reconnectAttempts s + 1;
               delay = reconnectDelay * reconnectDelayMultiplier ^ (n - 1)
           in s\<lparr>reconnectAttempts := n,
                reconnectTimer := Some (next_timer s),
                timers := timers s @ [(next_timer s, delay)],
                next_timer := Suc (next_timer s),
                trace := trace s @ [ReconnectIn delay]\<rparr>)"

subsection \<open>Connecting\<close>

definition setupSocketListeners :: "client \<Rightarrow> client" where
  "setupSocketListeners s =
     (case socket s of
        None \<Rightarrow> s
      | Some sk \<Rightarrow>
          s\<lparr>socket := Some (sk\<lparr>listeners :=
               (\<lambda>ev. listeners sk ev @ (if ev = Ev_tick then [TickDispatch] else [Forward]))\<rparr>)\<rparr>)"

text \<open>
  \<^verbatim>\<open>io(url, ...)\<close> gives a socket with no listener that is not yet connected; it is taken not
  to throw. The promise \<^verbatim>\<open>connect\<close> returns is \<open>connectionPromise\<close> of the result.
\<close>

definition io :: socket_io where
  "io = \<lparr>listeners = (\<lambda>ev. []), sock_connected = False\<rparr>"

definition connect :: "client \<Rightarrow> client" where
  "connect s =
     (if isConnected s then s
      else if isConnecting s \<and> connectionPromise s \<noteq> None then s
      else setupSocketListeners
             (s\<lparr>isConnecting := True, connectionPromise := Some None, connectionResolve := True,
                socket := Some io\<rparr>))"

definition connectionResolved :: "bool \<Rightarrow> client \<Rightarrow> client" where
  "connectionResolved b s =
     (if connectionResolve s
      then s\<lparr>connectionPromise :=
               (if connectionPromise s = Some None then Some (Some b) else connectionPromise s),
             connectionResolve := False\<rparr>
      else s)"

subsection \<open>Subscriptions\<close>

definition sendSubscribe :: "symbol \<Rightarrow> client \<Rightarrow> client" where
  "sendSubscribe symbol s =
     (if socket s = None \<or> \<not> isConnected s
      then s\<lparr>pendingSubscriptions := set_add symbol (pendingSubscriptions s)\<rparr>
      else send (Subscribe symbol ''M5'') s)"

definition sendUnsubscribe :: "symbol \<Rightarrow> client \<Rightarrow> client" where
  "sendUnsubscribe symbol s =
     (if socket s = None \<or> \<not> isConnected s then s else send (Unsubscribe symbol) s)"

definition subscribe :: "symbol \<Rightarrow> nat \<Rightarrow> client \<Rightarrow> client" where
  "subscribe symbol callback s =
     (let s1 = (if map_of (subscribers s) symbol = None
                then sendSubscribe symbol (s\<lparr>subscribers := AList.update symbol [] (subscribers s)\<rparr>)
                else s)
      in s1\<lparr>subscribers :=
             AList.update symbol (set_add callback (the (map_of (subscribers s1) symbol)))
               (subscribers s1)\<rparr>)"

definition unsubscribe :: "symbol \<Rightarrow> nat option \<Rightarrow> client \<Rightarrow> client" where
  "unsubscribe symbol callback s =
     (case map_of (subscribers s) symbol of
        None \<Rightarrow> s
      | Some callbacks \<Rightarrow>
          (case callback of
             Some cb \<Rightarrow>
               (let callbacks' = removeAll cb callbacks
                in if callbacks' = []
                   then sendUnsubscribe symbol
                          (s\<lparr>subscribers := AList.delete symbol (subscribers s)\<rparr>)
                   else s\<lparr>subscribers := AList.update symbol callbacks' (subscribers s)\<rparr>)
           | None \<Rightarrow>
               sendUnsubscribe symbol (s\<lparr>subscribers := AList.delete symbol (subscribers s)\<rparr>)))"

subsection \<open>The handlers of the socket's own events\<close>

text \<open>The listeners \<^verbatim>\<open>setupSocketListeners\<close> adds for \<^verbatim>\<open>connect\<close>, \<^verbatim>\<open>disconnect\<close>, \<^verbatim>\<open>connect_error\<close>.\<close>

definition on_connect :: "client \<Rightarrow> client" where
  "on_connect s =
     (let s1 = startPingInterval
                 (s\<lparr>isConnected := True, isConnecting := False, reconnectAttempts := 0\<rparr>);
          s2 = foldl (\<lambda>s symbol. sendSubscribe symbol s) s1 (pendingSubscriptions s1);
          s3 = s2\<lparr>pendingSubscriptions := []\<rparr>;
          s4 = emit Ev_connected Connected s3
      in connectionResolved True s4)"

definition on_disconnect :: "string \<Rightarrow> client \<Rightarrow> client" where
  "on_disconnect reason s =
     (let s1 = clearTimers (s\<lparr>isConnected := False\<rparr>);
          s2 = s1\<lparr>pendingSubscriptions :=
                 foldl (\<lambda>pending symbol. set_add symbol pending) (pendingSubscriptions s1)
                   (map fst (subscribers s1))\<rparr>;
          s3 = emit Ev_disconnected (Disconnected (Some reason)) s2
      in if reason \<noteq> ''io client disconnect'' \<and> reason \<noteq> ''transport close''
         then scheduleReconnection s3 else s3)"

definition on_connect_error :: "string \<Rightarrow> client \<Rightarrow> client" where
  "on_connect_error message s =
     (let s1 = s\<lparr>isConnecting := False, isConnected := False\<rparr>;
          errorData = ErrorEvent (getErrorCode message) message (Some (reconnectAttempts s1 + 1));
          s2 = emit Ev_error errorData s1;
          s3 = scheduleReconnection s2
      in connectionResolved False s3)"

text \<open>
  \<^verbatim>\<open>socket.disconnect()\<close> of a connected socket closes it and calls its \<^verbatim>\<open>disconnect\<close>
  listeners with the reason \<^verbatim>\<open>io client disconnect\<close> before it returns.
\<close>

definition socket_disconnect :: "client \<Rightarrow> client" where
  "socket_disconnect s =
     (case socket s of
        None \<Rightarrow> s
      | Some sk \<Rightarrow>
          if sock_connected sk
          then on_disconnect ''io client disconnect'' (s\<lparr>socket := Some (sk\<lparr>sock_connected := False\<rparr>)\<rparr>)
          else s)"

definition disconnect :: "client \<Rightarrow> client" where
  "disconnect s =
     (let s1 = clearTimers s;
          s2 = (if socket s1 \<noteq> None then (socket_disconnect s1)\<lparr>socket := None\<rparr> else s1)
      in s2\<lparr>isConnected := False, subscribers := [], pendingSubscriptions := [],
            reconnectAttempts := 0\<rparr>)"

subsection \<open>Pull queries\<close>

text \<open>
  Each query returns the index of its promise in \<open>pulls\<close>. The executor of the promise runs
  at once: it rejects or resolves when there is no connection, and otherwise arms the timer,
  registers the handler and sends the request, in this order.
\<close>

definition new_pull :: "query \<Rightarrow> promise_state \<Rightarrow> bool \<Rightarrow> client \<Rightarrow> client" where
  "new_pull q st armed s =
     s\<lparr>pulls := pulls s @ [\<lparr>pl_query = q, pl_state = st, pl_timer = armed, pl_then = None\<rparr>]\<rparr>"

definition not_connected :: js_error where
  "not_connected = Error ''Not connected to Socket.IO server''"

definition getSymbols :: "client \<Rightarrow> nat \<times> client" where
  "getSymbols s =
     (let r = length (pulls s)
      in if socket s = None \<or> \<not> isConnected s
         then (r, new_pull QSymbols (Rejected not_connected) False s)
         else (r, send GetSymbols (once Ev_symbols (Handler r) (new_pull QSymbols Pending True s))))"

definition getCandles :: "symbol \<Rightarrow> string \<Rightarrow> nat \<Rightarrow> client \<Rightarrow> nat \<times> client" where
  "getCandles symbol timeframe count s =
     (let r = length (pulls s)
      in if socket s = None \<or> \<not> isConnected s
         then (r, new_pull (QCandles symbol timeframe) (Resolved (VCandles [])) False s)
         else (r, send (GetCandles symbol timeframe count)
                    (case socket s of
                       Some sk \<Rightarrow>
                         (new_pull (QCandles symbol timeframe) Pending True s)
                           \<lparr>socket := Some (sock_on Ev_candles (Handler r) sk)\<rparr>
                     | None \<Rightarrow> s)))"

definition getOrderBook :: "symbol \<Rightarrow> nat \<Rightarrow> client \<Rightarrow> nat \<times> client" where
  "getOrderBook symbol depth s =
     (let r = length (pulls s)
      in if socket s = None \<or> \<not> isConnected s
         then (r, new_pull (QOrderBook symbol) (Rejected not_connected) False s)
         else (r, send (GetOrderBook symbol depth)
                    (once Ev_order_book (Handler r) (new_pull (QOrderBook symbol) Pending True s))))"

definition getAccountInfo :: "client \<Rightarrow> nat \<times> client" where
  "getAccountInfo s =
     (let r = length (pulls s)
      in if socket s = None \<or> \<not> isConnected s
         then (r, new_pull QAccountInfo (Rejected not_connected) False s)
         else (r, send GetAccountInfo
                    (once Ev_account_info (Handler r) (new_pull QAccountInfo Pending True s))))"

text \<open>The callback of the \<^verbatim>\<open>setTimeout\<close> of pull query \<open>r\<close>; a timer fires only while armed.\<close>

definition query_timeout :: "nat \<Rightarrow> client \<Rightarrow> client" where
  "query_timeout r s =
     (if r < length (pulls s) \<and> pl_timer (pulls s ! r) then
        (let s1 = clearTimeout r s
         in case pl_query (pulls s ! r) of
              QSymbols \<Rightarrow> reject r (Error ''Timeout waiting for symbols'') s1
            | QCandles symbol timeframe \<Rightarrow>
                resolve r (VCandles []) (socket_off Ev_candles (Handler r) s1)
            | QOrderBook symbol \<Rightarrow> reject r (Error ''Timeout waiting for order book'') s1
            | QAccountInfo \<Rightarrow> reject r (Error ''Timeout waiting for account info'') s1)
      else s)"

subsection \<open>The candle cache of the market-data hook\<close>

definition cacheKey :: "symbol \<Rightarrow> string \<Rightarrow> nat \<Rightarrow> string" where
  "cacheKey symbol timeframe count = symbol @ ''_'' @ timeframe @ ''_'' @ show_nat count"

text \<open>
  What the \<^verbatim>\<open>async\<close> function returns: its promise follows the promise \<open>r\<close> of the chain, or
  is resolved with a cached value.
\<close>

datatype future = Follows nat | Cached js_value

definition attach_then :: "nat \<Rightarrow> string \<Rightarrow> client \<Rightarrow> client" where
  "attach_then r key s =
     (if r < length (pulls s)
      then s\<lparr>pulls := (pulls s)[r := (pulls s ! r)\<lparr>pl_then := Some key\<rparr>],
             microtasks := (if pl_state (pulls s ! r) = Pending then microtasks s
                            else microtasks s @ [r])\<rparr>
      else s)"

definition getCandlesWithCache :: "symbol \<Rightarrow> string \<Rightarrow> nat \<Rightarrow> client \<Rightarrow> future \<times> client" where
  "getCandlesWithCache symbol timeframe count s =
     (let key = cacheKey symbol timeframe count
      in case map_of (candlesPromises s) key of
           Some p \<Rightarrow> (Follows p, s)
         | None \<Rightarrow>
             (case map_of (candlesCache s) key of
                Some candles \<Rightarrow> (Cached candles, s)
              | None \<Rightarrow>
                  (let (r, s1) = getCandles symbol timeframe count s;
                       s2 = attach_then r key s1
                   in (Follows r, s2\<lparr>candlesPromises := AList.update key r (candlesPromises s2)\<rparr>))))"

text \<open>The \<^verbatim>\<open>.then\<close> and \<^verbatim>\<open>.catch\<close> callbacks of the chain, run once promise \<open>r\<close> is settled.\<close>

definition reaction :: "nat \<Rightarrow> client \<Rightarrow> client" where
  "reaction r s =
     (if r < length (pulls s) then
        (case pl_then (pulls s ! r) of
           None \<Rightarrow> s
         | Some key \<Rightarrow>
             (case pl_state (pulls s ! r) of
                Resolved candles \<Rightarrow>
                  s\<lparr>candlesCache := AList.update key candles (candlesCache s),
                    candlesPromises := AList.delete key (candlesPromises s),
                    cacheTimers := cacheTimers s @ [key]\<rparr>
              | Rejected e \<Rightarrow> s\<lparr>candlesPromises := AList.delete key (candlesPromises s)\<rparr>
              | Pending \<Rightarrow> s))
      else s)"

definition drain :: "client \<Rightarrow> client" where
  "drain s = foldl (\<lambda>s r. reaction r s) (s\<lparr>microtasks := []\<rparr>) (microtasks s)"

definition cache_expire :: "string \<Rightarrow> client \<Rightarrow> client" where
  "cache_expire key s =
     (if key \<in> set (cacheTimers s)
      then s\<lparr>cacheTimers := remove1 key (cacheTimers s),
             candlesCache := AList.delete key (candlesCache s)\<rparr>
      else s)"

subsection \<open>Tasks\<close>

text \<open>
  Everything that can happen to the client: the socket delivers one of its own events or
  an inbound event, a timer fires, or a consumer calls a method. After each task the
  microtasks run.
\<close>

definition reconnect_timer :: "nat \<Rightarrow> client \<Rightarrow> client" where
  "reconnect_timer t s =
     (if t \<in> fst ` set (timers s) then connect (s\<lparr>timers := filter (\<lambda>x. fst x \<noteq> t) (timers s)\<rparr>)
      else s)"

definition transport_open :: "client \<Rightarrow> client" where
  "transport_open s =
     (case socket s of
        Some sk \<Rightarrow> on_connect (s\<lparr>socket := Some (sk\<lparr>sock_connected := True\<rparr>)\<rparr>)
      | None \<Rightarrow> s)"

definition transport_close :: "string \<Rightarrow> client \<Rightarrow> client" where
  "transport_close reason s =
     (case socket s of
        Some sk \<Rightarrow> on_disconnect reason (s\<lparr>socket := Some (sk\<lparr>sock_connected := False\<rparr>)\<rparr>)
      | None \<Rightarrow> s)"

definition transport_error :: "string \<Rightarrow> client \<Rightarrow> client" where
  "transport_error message s = (case socket s of Some sk \<Rightarrow> on_connect_error message s | None \<Rightarrow> s)"

datatype task =
    Inbound event
  | TransportOpen
  | TransportClose string
  | TransportError string
  | ReconnectTimer nat
  | QueryTimeout nat
  | CacheExpiry string
  | PingInterval
  | CallConnect
  | CallDisconnect
  | CallSubscribe symbol nat
  | CallUnsubscribe symbol "nat option"
  | CallOn event_name nat
  | CallOff event_name "nat option"
  | CallOnce event_name nat
  | CallGetSymbols
  | CallGetCandles symbol string nat
  | CallGetOrderBook symbol nat
  | CallGetAccountInfo
  | CallGetCandlesWithCache symbol string nat

fun perform :: "task \<Rightarrow> client \<Rightarrow> client" where
  "perform (Inbound data) s = inbound data s"
| "perform TransportOpen s = transport_open s"
| "perform (TransportClose reason) s = transport_close reason s"
| "perform (TransportError message) s = transport_error message s"
| "perform (ReconnectTimer t) s = reconnect_timer t s"
| "perform (QueryTimeout r) s = query_timeout r s"
| "perform (CacheExpiry key) s = cache_expire key s"
| "perform PingInterval s = (if pingInterval s then ping s else s)"
| "perform CallConnect s = connect s"
| "perform CallDisconnect s = disconnect s"
| "perform (CallSubscribe symbol cb) s = subscribe symbol cb s"
| "perform (CallUnsubscribe symbol cb) s = unsubscribe symbol cb s"
| "perform (CallOn ev cb) s = on ev (User cb) s"
| "perform (CallOff ev cb) s = off ev (map_option User cb) s"
| "perform (CallOnce ev cb) s = once ev (User cb) s"
| "perform CallGetSymbols s = snd (getSymbols s)"
| "perform (CallGetCandles symbol timeframe count) s = snd (getCandles symbol timeframe count s)"
| "perform (CallGetOrderBook symbol depth) s = snd (getOrderBook symbol depth s)"
| "perform CallGetAccountInfo s = snd (getAccountInfo s)"
| "perform (CallGetCandlesWithCache symbol timeframe count) s =
     snd (getCandlesWithCache symbol timeframe count s)"

definition step :: "task \<Rightarrow> client \<Rightarrow> client" where
  "step t s = drain (perform t s)"

definition run :: "task list \<Rightarrow> client \<Rightarrow> client" where
  "run ts s = foldl (\<lambda>s t. step t s) s ts"

text \<open>The client as its constructor leaves it, with the two maps of the hook empty.\<close>

definition initial :: client where
  "initial =
     \<lparr>socket = None, subscribers = [], isConnecting = False, isConnected = False,
      pendingSubscriptions = [], reconnectAttempts = 0, reconnectTimer = None,
      pingInterval = False, eventListeners = (\<lambda>ev. []), connectionPromise = None,
      connectionResolve = False, timers = [], next_timer = 0, next_once = 0, pulls = [],
      microtasks = [], candlesCache = [], candlesPromises = [], cacheTimers = [], trace = []\<rparr>"

text \<open>A client that called \<^verbatim>\<open>connect\<close> and whose socket then connected.\<close>

definition live :: client where
  "live = run [CallConnect, TransportOpen] initial"

subsection \<open>Notions used to state the properties\<close>

text \<open>The state of the promise a pull query returned.\<close>

definition promise_of :: "nat \<Rightarrow> client \<Rightarrow> promise_state" where
  "promise_of r s = (if r < length (pulls s) then pl_state (pulls s ! r) else Pending)"

fun is_invoke :: "effect \<Rightarrow> bool" where
  "is_invoke (Invoke _ _) = True"
| "is_invoke _ = False"

text \<open>The fields that calling a listener never touches.\<close>

definition control where
  "control s = (subscribers s, isConnecting s, isConnected s, pendingSubscriptions s,
     reconnectAttempts s, reconnectTimer s, pingInterval s, connectionPromise s,
     connectionResolve s, timers s, next_timer s, next_once s, candlesCache s,
     candlesPromises s, cacheTimers s)"

text \<open>A consumer adding or removing one callback of a symbol.\<close>

datatype sub_op = Add nat | Remove nat

fun apply_op :: "symbol \<Rightarrow> client \<Rightarrow> sub_op \<Rightarrow> client" where
  "apply_op symbol s (Add cb) = subscribe symbol cb s"
| "apply_op symbol s (Remove cb) = unsubscribe symbol (Some cb) s"

text \<open>How many \<^verbatim>\<open>subscribe\<close> messages for a symbol the client has sent.\<close>

definition subscribe_sends :: "symbol \<Rightarrow> client \<Rightarrow> nat" where
  "subscribe_sends symbol s = count_list (trace s) (Send (Subscribe symbol ''M5''))"


text \<open>The delays of the reconnections scheduled so far, in order.\<close>

fun delay_of :: "effect \<Rightarrow> rat list" where
  "delay_of (ReconnectIn d) = [d]"
| "delay_of _ = []"

definition scheduled :: "client \<Rightarrow> rat list" where
  "scheduled s = concat (map delay_of (trace s))"

text \<open>How often the error event \<^verbatim>\<open>MAX_RECONNECT_ATTEMPTS\<close> was emitted.\<close>

definition gave_up :: "client \<Rightarrow> nat" where
  "gave_up s = count_list (trace s) (Emit max_attempts_error)"

definition delay :: "nat \<Rightarrow> rat" where
  "delay n = reconnectDelay * reconnectDelayMultiplier ^ (n - 1)"

text \<open>
  How often the handler of pull query \<open>r\<close> is registered on the socket for \<^verbatim>\<open>candles\<close>, as
  itself or inside a one-shot wrapper.
\<close>

definition handler_count :: "nat \<Rightarrow> client \<Rightarrow> nat" where
  "handler_count r s =
     (case socket s of
        None \<Rightarrow> 0
      | Some sk \<Rightarrow>
          length (filter (\<lambda>l. l = Direct (Handler r) \<or> l = OnceWrap (Handler r))
                    (listeners sk Ev_candles)))"

text \<open>
  What holds of promise \<open>r\<close> between a state and a later one: the promise is still there with
  the same query; once settled it keeps its state; while it is pending its timer is as it
  was; and its handler is registered no more often than before.
\<close>

definition later :: "nat \<Rightarrow> client \<Rightarrow> client \<Rightarrow> bool" where
  "later r s s' \<longleftrightarrow>
     (r < length (pulls s) \<longrightarrow>
        r < length (pulls s')
      \<and> pl_query (pulls s' ! r) = pl_query (pulls s ! r)
      \<and> (pl_state (pulls s ! r) \<noteq> Pending \<longrightarrow> pl_state (pulls s' ! r) = pl_state (pulls s ! r))
      \<and> (pl_state (pulls s' ! r) = Pending \<longrightarrow> pl_timer (pulls s' ! r) = pl_timer (pulls s ! r))
      \<and> handler_count r s' \<le> handler_count r s)"

text \<open>
  A pull query settles once, and by its timeout as \<open>outcome\<close>: the promise it returns is
  pending; whatever tasks run next, if the promise is still pending then the timeout of the
  query settles it as \<open>outcome\<close>, and if it is settled then no further task changes it.
\<close>

definition settles_once :: "nat \<times> client \<Rightarrow> promise_state \<Rightarrow> bool" where
  "settles_once call outcome \<longleftrightarrow>
     promise_of (fst call) (snd call) = Pending
     \<and> (\<forall>ts. (promise_of (fst call) (run ts (snd call)) = Pending \<longrightarrow>
                 promise_of (fst call) (step (QueryTimeout (fst call)) (run ts (snd call))) = outcome)
            \<and> (promise_of (fst call) (run ts (snd call)) \<noteq> Pending \<longrightarrow>
                 (\<forall>ts'. promise_of (fst call) (run ts' (run ts (snd call)))
                          = promise_of (fst call) (run ts (snd call)))))"

fun timeout_outcome :: "query \<Rightarrow> promise_state" where
  "timeout_outcome QSymbols = Rejected (Error ''Timeout waiting for symbols'')"
| "timeout_outcome (QCandles _ _) = Resolved (VCandles [])"
| "timeout_outcome (QOrderBook _) = Rejected (Error ''Timeout waiting for order book'')"
| "timeout_outcome QAccountInfo = Rejected (Error ''Timeout waiting for account info'')"

text \<open>
  Whether calling a listener ends in a call of the consumer's function \<open>cb\<close>, and whether
  what is registered on the socket does.
\<close>

fun mentions :: "nat \<Rightarrow> callback \<Rightarrow> bool" where
  "mentions cb (User n) = (n = cb)"
| "mentions cb (Handler r) = False"
| "mentions cb (OnceHandler i ev c) = mentions cb c"

fun listener_mentions :: "nat \<Rightarrow> sock_listener \<Rightarrow> bool" where
  "listener_mentions cb (Direct c) = mentions cb c"
| "listener_mentions cb (OnceWrap c) = mentions cb c"
| "listener_mentions cb _ = False"

text \<open>How often the function \<open>cb\<close> was called with an event.\<close>

fun is_call :: "nat \<Rightarrow> effect \<Rightarrow> bool" where
  "is_call cb (Invoke n e) = (n = cb)"
| "is_call cb _ = False"

definition calls_of :: "nat \<Rightarrow> client \<Rightarrow> nat" where
  "calls_of cb s = length (filter (is_call cb) (trace s))"

text \<open>
  The listeners that matter for the calls of \<open>cb\<close>: on the socket the forwarders and what
  mentions \<open>cb\<close>, in \<open>eventListeners\<close> what mentions \<open>cb\<close>.
\<close>

definition sock_part :: "nat \<Rightarrow> client \<Rightarrow> event_name \<Rightarrow> sock_listener list" where
  "sock_part cb s ev =
     (case socket s of
        None \<Rightarrow> []
      | Some sk \<Rightarrow> filter (\<lambda>l. l = Forward \<or> listener_mentions cb l) (listeners sk ev))"

definition own_part :: "nat \<Rightarrow> client \<Rightarrow> event_name \<Rightarrow> callback list" where
  "own_part cb s ev = filter (mentions cb) (eventListeners s ev)"

definition same_for :: "nat \<Rightarrow> client \<Rightarrow> client \<Rightarrow> bool" where
  "same_for cb s s' \<longleftrightarrow>
     (\<forall>ev. sock_part cb s' ev = sock_part cb s ev)
     \<and> (\<forall>ev. own_part cb s' ev = own_part cb s ev)
     \<and> calls_of cb s' = calls_of cb s \<and> (socket s' = None \<longleftrightarrow> socket s = None)"

definition counted :: "nat \<Rightarrow> nat \<Rightarrow> client \<Rightarrow> client \<Rightarrow> bool" where
  "counted cb n s s' \<longleftrightarrow>
     (\<forall>ev. sock_part cb s' ev = sock_part cb s ev)
     \<and> (\<forall>ev. own_part cb s' ev = own_part cb s ev)
     \<and> calls_of cb s' = calls_of cb s + n \<and> (socket s' = None \<longleftrightarrow> socket s = None)"

definition registered :: "nat \<Rightarrow> event_name \<Rightarrow> client \<Rightarrow> bool" where
  "registered cb ev s \<longleftrightarrow>
     socket s \<noteq> None \<and> set (sock_part cb s ev) \<subseteq> {Forward, Direct (User cb)}
     \<and> own_part cb s ev = [User cb]"


section \<open>Properties\<close>

subsection \<open>What calling listeners leaves unchanged\<close>

lemma controlD:
  assumes "control s' = control s"
  shows "subscribers s' = subscribers s" and "isConnecting s' = isConnecting s"
    and "isConnected s' = isConnected s" and "pendingSubscriptions s' = pendingSubscriptions s"
    and "reconnectAttempts s' = reconnectAttempts s" and "reconnectTimer s' = reconnectTimer s"
    and "pingInterval s' = pingInterval s" and "connectionPromise s' = connectionPromise s"
    and "connectionResolve s' = connectionResolve s" and "timers s' = timers s"
    and "next_timer s' = next_timer s" and "next_once s' = next_once s"
    and "candlesCache s' = candlesCache s" and "candlesPromises s' = candlesPromises s"
    and "cacheTimers s' = cacheTimers s"
  using assms by (simp_all add: control_def)

lemma control_settle: "control (settle r v s) = control s"
  by (simp add: control_def settle_def)

lemma control_clearTimeout: "control (clearTimeout r s) = control s"
  by (simp add: control_def clearTimeout_def)

lemma control_off: "control (off ev cbo s) = control s"
  by (simp add: control_def off_def Let_def split: option.splits)

lemma control_socket_off: "control (socket_off ev cb s) = control s"
  by (simp add: control_def socket_off_def split: option.splits)

lemma control_handler: "control (handler r e s) = control s"
  by (simp add: handler_def resolve_def control_settle control_off control_socket_off
      control_clearTimeout split: query.splits)

lemma control_invoke: "control (invoke c e s) = control s"
  by (induction c arbitrary: s) (simp_all add: control_handler control_off, simp add: control_def)

lemma control_emit_each: "control (emit_each cs ev e s) = control s"
  by (induction cs arbitrary: s) (simp_all add: control_invoke)

lemma control_emit: "control (emit ev e s) = control s"
  by (simp add: emit_def control_emit_each) (simp add: control_def)

lemmas emit_frame = controlD [OF control_emit]

lemma socket_off_none: "socket (off ev cbo s) = None \<longleftrightarrow> socket s = None"
  by (simp add: off_def Let_def split: option.splits)

lemma socket_settle [simp]: "socket (settle r v s) = socket s"
  by (simp add: settle_def)

lemma socket_clearTimeout [simp]: "socket (clearTimeout r s) = socket s"
  by (simp add: clearTimeout_def)

lemma socket_handler_none: "socket (handler r e s) = None \<longleftrightarrow> socket s = None"
  by (simp add: handler_def resolve_def socket_off_none socket_off_def split: query.splits option.splits)

lemma socket_invoke_none: "socket (invoke c e s) = None \<longleftrightarrow> socket s = None"
  by (induction c arbitrary: s) (simp_all add: socket_handler_none socket_off_none)

lemma socket_emit_each_none: "socket (emit_each cs ev e s) = None \<longleftrightarrow> socket s = None"
  by (induction cs arbitrary: s) (simp_all add: socket_invoke_none)

lemma socket_emit_none: "socket (emit ev e s) = None \<longleftrightarrow> socket s = None"
  by (simp add: emit_def socket_emit_each_none)

lemma trace_settle [simp]: "trace (settle r v s) = trace s"
  by (simp add: settle_def)
lemma trace_clearTimeout [simp]: "trace (clearTimeout r s) = trace s"
  by (simp add: clearTimeout_def)
lemma trace_off [simp]: "trace (off ev cbo s) = trace s"
  by (simp add: off_def Let_def split: option.splits)
lemma trace_socket_off [simp]: "trace (socket_off ev cb s) = trace s"
  by (simp add: socket_off_def split: option.splits)
lemma trace_handler [simp]: "trace (handler r e s) = trace s"
  by (simp add: handler_def resolve_def split: query.splits)

lemma trace_invoke: "\<exists>calls. trace (invoke c e s) = trace s @ calls \<and> list_all is_invoke calls"
  by (induction c arbitrary: s) (simp_all, metis trace_off)

lemma trace_emit_each:
  "\<exists>calls. trace (emit_each cs ev e s) = trace s @ calls \<and> list_all is_invoke calls"
proof (induction cs arbitrary: s)
  case Nil
  then show ?case by simp
next
  case (Cons c cs)
  let ?s1 = "if c \<in> set (eventListeners s ev) then invoke c e s else s"
  obtain xs where xs: "trace ?s1 = trace s @ xs" "list_all is_invoke xs"
    using trace_invoke [of c e s] by (cases "c \<in> set (eventListeners s ev)") auto
  obtain ys where ys: "trace (emit_each cs ev e ?s1) = trace ?s1 @ ys" "list_all is_invoke ys"
    using Cons.IH [of ?s1] by blast
  have "trace (emit_each (c # cs) ev e s) = trace s @ (xs @ ys)"
    using xs ys by simp
  moreover have "list_all is_invoke (xs @ ys)"
    using xs ys by simp
  ultimately show ?case by blast
qed

lemma trace_emit:
  "\<exists>calls. trace (emit ev e s) = trace s @ Emit e # calls \<and> list_all is_invoke calls"
  using trace_emit_each [of "eventListeners s ev" ev e "s\<lparr>trace := trace s @ [Emit e]\<rparr>"]
  by (auto simp: emit_def)

subsection \<open>Timers\<close>

lemma clearTimers_idem [simp]: "clearTimers (clearTimers s) = clearTimers s"
  by (simp add: clearTimers_def Let_def split: option.splits)

lemma clearTimers_fields [simp]:
  "reconnectTimer (clearTimers s) = None"
  "reconnectAttempts (clearTimers s) = reconnectAttempts s"
  "next_timer (clearTimers s) = next_timer s"
  "socket (clearTimers s) = socket s"
  "subscribers (clearTimers s) = subscribers s"
  "pendingSubscriptions (clearTimers s) = pendingSubscriptions s"
  "trace (clearTimers s) = trace s"
  "isConnected (clearTimers s) = isConnected s"
  by (simp_all add: clearTimers_def Let_def split: option.splits)

lemma clearTimers_timers_cong:
  "timers s' = timers s \<Longrightarrow> reconnectTimer s' = reconnectTimer s \<Longrightarrow>
   timers (clearTimers s') = timers (clearTimers s)"
  by (simp add: clearTimers_def Let_def split: option.splits)

lemma on_disconnect_no_schedule:
  assumes "reason = ''io client disconnect'' \<or> reason = ''transport close''"
  shows "timers (on_disconnect reason s) = timers (clearTimers s)"
    and "reconnectTimer (on_disconnect reason s) = None"
    and "reconnectAttempts (on_disconnect reason s) = reconnectAttempts s"
  using assms
  by (auto simp: on_disconnect_def Let_def emit_frame intro: clearTimers_timers_cong)


lemma clearTimers_socket_update [simp]:
  "clearTimers (s\<lparr>socket := x\<rparr>) = (clearTimers s)\<lparr>socket := x\<rparr>"
  by (simp add: clearTimers_def Let_def split: option.splits)

lemma clearTimers_isConnected_update [simp]:
  "clearTimers (s\<lparr>isConnected := x\<rparr>) = (clearTimers s)\<lparr>isConnected := x\<rparr>"
  by (simp add: clearTimers_def Let_def split: option.splits)

lemma disconnect_timers:
  "timers (disconnect s) = timers (clearTimers s)" "reconnectTimer (disconnect s) = None"
  by (simp_all add: disconnect_def Let_def socket_disconnect_def on_disconnect_no_schedule
      split: option.splits)

subsection \<open>Pending subscriptions\<close>

lemma set_add_set [simp]: "set (set_add x xs) = insert x (set xs)"
  by (auto simp: set_add_def)

lemma set_add_distinct [simp]: "distinct (set_add x xs) = distinct xs"
  by (auto simp: set_add_def)

lemma foldl_set_add_set: "set (foldl (\<lambda>pending symbol. set_add symbol pending) p xs) = set p \<union> set xs"
  by (induction xs arbitrary: p) auto

lemma foldl_set_add_distinct:
  "distinct (foldl (\<lambda>pending symbol. set_add symbol pending) p xs) = distinct p"
  by (induction xs arbitrary: p) auto

lemma distinct_count_list_one: "distinct xs \<Longrightarrow> x \<in> set xs \<Longrightarrow> count_list xs x = 1"
  by (induction xs) auto

lemma on_disconnect_pending:
  "set (pendingSubscriptions (on_disconnect reason s))
     = set (pendingSubscriptions s) \<union> fst ` set (subscribers s)"
  "distinct (pendingSubscriptions (on_disconnect reason s)) = distinct (pendingSubscriptions s)"
  by (simp_all add: on_disconnect_def Let_def emit_frame scheduleReconnection_def
      foldl_set_add_set foldl_set_add_distinct)

lemma on_disconnect_socket: "socket (on_disconnect reason s) = None \<longleftrightarrow> socket s = None"
  by (simp add: on_disconnect_def Let_def socket_emit_none scheduleReconnection_def)

lemma flush_connected:
  assumes "socket s \<noteq> None" "isConnected s"
  shows "foldl (\<lambda>s symbol. sendSubscribe symbol s) s xs
           = s\<lparr>trace := trace s @ map (\<lambda>symbol. Send (Subscribe symbol ''M5'')) xs\<rparr>"
  using assms
proof (induction xs arbitrary: s)
  case Nil
  then show ?case by simp
next
  case (Cons x xs)
  have "sendSubscribe x s = s\<lparr>trace := trace s @ [Send (Subscribe x ''M5'')]\<rparr>"
    using Cons.prems by (auto simp: sendSubscribe_def send_def)
  then show ?case
    using Cons.IH [of "s\<lparr>trace := trace s @ [Send (Subscribe x ''M5'')]\<rparr>"] Cons.prems
    by simp
qed

lemma on_connect_trace:
  assumes "socket s \<noteq> None"
  shows "\<exists>calls. trace (on_connect s)
            = trace s @ map (\<lambda>symbol. Send (Subscribe symbol ''M5'')) (pendingSubscriptions s)
              @ Emit Connected # calls
          \<and> list_all is_invoke calls"
proof -
  let ?s1 = "startPingInterval (s\<lparr>isConnected := True, isConnecting := False, reconnectAttempts := 0\<rparr>)"
  have s1: "socket ?s1 \<noteq> None" "isConnected ?s1" "pendingSubscriptions ?s1 = pendingSubscriptions s"
    "trace ?s1 = trace s"
    using assms by (simp_all add: startPingInterval_def)
  let ?s3 = "(foldl (\<lambda>s symbol. sendSubscribe symbol s) ?s1 (pendingSubscriptions ?s1))\<lparr>pendingSubscriptions := []\<rparr>"
  have s3: "trace ?s3 = trace s @ map (\<lambda>symbol. Send (Subscribe symbol ''M5'')) (pendingSubscriptions s)"
    by (simp add: flush_connected [OF s1(1,2)] s1)
  obtain calls where c: "trace (emit Ev_connected Connected ?s3) = trace ?s3 @ Emit Connected # calls"
    "list_all is_invoke calls"
    using trace_emit by blast
  have "trace (on_connect s) = trace (emit Ev_connected Connected ?s3)"
    by (simp add: on_connect_def Let_def connectionResolved_def)
  with c s3 show ?thesis by auto
qed

subsection \<open>Subscribing\<close>

lemma subscribe_first:
  assumes "map_of (subscribers s) symbol = None"
  shows "socket s \<noteq> None \<and> isConnected s \<Longrightarrow>
           trace (subscribe symbol cb s) = trace s @ [Send (Subscribe symbol ''M5'')]"
    and "socket s \<noteq> None \<and> isConnected s \<Longrightarrow>
           pendingSubscriptions (subscribe symbol cb s) = pendingSubscriptions s"
    and "\<not> (socket s \<noteq> None \<and> isConnected s) \<Longrightarrow> trace (subscribe symbol cb s) = trace s"
    and "\<not> (socket s \<noteq> None \<and> isConnected s) \<Longrightarrow>
           pendingSubscriptions (subscribe symbol cb s) = set_add symbol (pendingSubscriptions s)"
    and "map_of (subscribers (subscribe symbol cb s)) symbol = Some [cb]"
    and "socket (subscribe symbol cb s) = socket s"
    and "isConnected (subscribe symbol cb s) = isConnected s"
  using assms
  by (auto simp: subscribe_def sendSubscribe_def send_def Let_def update_conv' set_add_def)

lemma subscribe_again:
  assumes "map_of (subscribers s) symbol = Some cbs"
  shows "trace (subscribe symbol cb s) = trace s"
    and "pendingSubscriptions (subscribe symbol cb s) = pendingSubscriptions s"
    and "map_of (subscribers (subscribe symbol cb s)) symbol = Some (set_add cb cbs)"
    and "socket (subscribe symbol cb s) = socket s"
    and "isConnected (subscribe symbol cb s) = isConnected s"
  using assms
  by (auto simp: subscribe_def Let_def update_conv')

lemma subscribe_many_again:
  assumes "map_of (subscribers s) symbol \<noteq> None"
  shows "trace (foldl (\<lambda>s cb. subscribe symbol cb s) s cbs) = trace s
       \<and> pendingSubscriptions (foldl (\<lambda>s cb. subscribe symbol cb s) s cbs) = pendingSubscriptions s
       \<and> map_of (subscribers (foldl (\<lambda>s cb. subscribe symbol cb s) s cbs)) symbol \<noteq> None"
  using assms
proof (induction cbs arbitrary: s)
  case Nil
  then show ?case by simp
next
  case (Cons cb cbs)
  then obtain xs where xs: "map_of (subscribers s) symbol = Some xs" by auto
  show ?case
    using Cons.IH [of "subscribe symbol cb s"] subscribe_again [OF xs, of cb]
    by simp
qed

lemma unsubscribe_sends:
  "subscribe_sends symbol (unsubscribe symbol' cbo s) = subscribe_sends symbol s"
  "pendingSubscriptions (unsubscribe symbol' cbo s) = pendingSubscriptions s"
  by (auto simp: unsubscribe_def sendUnsubscribe_def send_def subscribe_sends_def Let_def
      split: option.splits)

lemma apply_op_subscribed:
  assumes "map_of (subscribers s) symbol \<noteq> None"
  shows "subscribe_sends symbol (apply_op symbol s op) = subscribe_sends symbol s"
    and "pendingSubscriptions (apply_op symbol s op) = pendingSubscriptions s"
proof -
  obtain xs where xs: "map_of (subscribers s) symbol = Some xs"
    using assms by auto
  show "subscribe_sends symbol (apply_op symbol s op) = subscribe_sends symbol s"
  proof (cases op)
    case (Add cb)
    then show ?thesis
      by (simp add: subscribe_again [OF xs] subscribe_sends_def)
  next
    case (Remove cb)
    then show ?thesis
      by (simp add: unsubscribe_sends)
  qed
  show "pendingSubscriptions (apply_op symbol s op) = pendingSubscriptions s"
    by (cases op) (simp_all add: unsubscribe_sends subscribe_again [OF xs])
qed

lemma ops_while_subscribed:
  assumes "\<forall>k < length ops. map_of (subscribers (foldl (apply_op symbol) s (take k ops))) symbol \<noteq> None"
  shows "subscribe_sends symbol (foldl (apply_op symbol) s ops) = subscribe_sends symbol s
       \<and> pendingSubscriptions (foldl (apply_op symbol) s ops) = pendingSubscriptions s"
  using assms
proof (induction ops arbitrary: s)
  case Nil
  then show ?case by simp
next
  case (Cons op ops)
  have here: "map_of (subscribers s) symbol \<noteq> None"
    using Cons.prems by fastforce
  have later: "\<forall>k < length ops.
      map_of (subscribers (foldl (apply_op symbol) (apply_op symbol s op) (take k ops))) symbol \<noteq> None"
  proof (intro allI impI)
    fix k assume "k < length ops"
    then have "Suc k < length (op # ops)" by simp
    from Cons.prems [rule_format, OF this] show
      "map_of (subscribers (foldl (apply_op symbol) (apply_op symbol s op) (take k ops))) symbol \<noteq> None"
      by simp
  qed
  show ?case
    using Cons.IH [OF later] apply_op_subscribed [OF here, of op] by simp
qed

subsection \<open>The reconnection loop\<close>

lemma connect_frame [simp]:
  "timers (connect s) = timers s" "reconnectAttempts (connect s) = reconnectAttempts s"
  "trace (connect s) = trace s" "reconnectTimer (connect s) = reconnectTimer s"
  by (simp_all add: connect_def setupSocketListeners_def)

lemma connectionResolved_frame [simp]:
  "timers (connectionResolved b s) = timers s"
  "reconnectAttempts (connectionResolved b s) = reconnectAttempts s"
  "trace (connectionResolved b s) = trace s"
  "reconnectTimer (connectionResolved b s) = reconnectTimer s"
  by (simp_all add: connectionResolved_def)

lemma invokes_no_delay: "list_all is_invoke calls \<Longrightarrow> concat (map delay_of calls) = []"
  by (induction calls) (auto elim: is_invoke.elims)


lemma emit_scheduled [simp]: "scheduled (emit ev e s) = scheduled s"
  using trace_emit [of ev e s] by (auto simp: scheduled_def invokes_no_delay)






lemma scheduled_update [simp]:
  "scheduled (s\<lparr>isConnecting := a\<rparr>) = scheduled s"
  "scheduled (s\<lparr>isConnected := b\<rparr>) = scheduled s"
  by (simp_all add: scheduled_def)

lemma gave_up_update [simp]:
  "gave_up (s\<lparr>isConnecting := a\<rparr>) = gave_up s"
  "gave_up (s\<lparr>isConnected := b\<rparr>) = gave_up s"
  by (simp_all add: gave_up_def)

lemma on_connect_error_eq:
  "on_connect_error m s
     = connectionResolved False
         (scheduleReconnection
           (emit Ev_error (ErrorEvent (getErrorCode m) m (Some (Suc (reconnectAttempts s))))
              (s\<lparr>isConnecting := False, isConnected := False\<rparr>)))"
  by (simp add: on_connect_error_def Let_def)











subsection \<open>Promises through the tasks\<close>

lemma later_refl [simp]: "later r s s"
  by (simp add: later_def)

lemma later_trans: "later r s s1 \<Longrightarrow> later r s1 s2 \<Longrightarrow> later r s s2"
  unfolding later_def by (metis le_trans)

lemma later_eq:
  "pulls s' = pulls s \<Longrightarrow> handler_count r s' \<le> handler_count r s \<Longrightarrow> later r s s'"
  by (simp add: later_def)

lemma later_same: "pulls s' = pulls s \<Longrightarrow> socket s' = socket s \<Longrightarrow> later r s s'"
  by (simp add: later_def handler_count_def)

lemma filter_remove_first: "length (filter P (remove_first Q xs)) \<le> length (filter P xs)"
  by (induction xs) auto

lemma handler_count_sock_off:
  "socket s = Some sk \<Longrightarrow> handler_count r (s\<lparr>socket := Some (sock_off ev fn sk)\<rparr>) \<le> handler_count r s"
  by (simp add: handler_count_def sock_off_def filter_remove_first)

lemma handler_count_unwrap:
  "socket s = Some sk \<Longrightarrow>
   handler_count r (s\<lparr>socket := Some (sock_off_wrapper ev fn sk)\<rparr>) \<le> handler_count r s"
  by (simp add: handler_count_def sock_off_wrapper_def filter_remove_first)

lemma later_off: "later r s (off ev cbo s)"
proof (rule later_eq)
  show "pulls (off ev cbo s) = pulls s"
    by (simp add: off_def Let_def split: option.splits)
  show "handler_count r (off ev cbo s) \<le> handler_count r s"
    using handler_count_sock_off [of "s\<lparr>eventListeners := X\<rparr>" for X]
    by (auto simp: off_def Let_def handler_count_def sock_off_def filter_remove_first split: option.splits)
qed

lemma later_socket_off: "later r s (socket_off ev fn s)"
  by (rule later_eq)
    (auto simp: socket_off_def handler_count_def sock_off_def filter_remove_first split: option.splits)

lemma later_unwrap_once: "later r s (unwrap_once ev fn s)"
  by (rule later_eq)
    (auto simp: unwrap_once_def handler_count_def sock_off_wrapper_def filter_remove_first
      split: option.splits)

lemma later_settle: "later r s (settle r' v s)"
  by (auto simp: later_def settle_def handler_count_def nth_list_update)

text \<open>Clearing the timer and then settling: what the handlers and the timeouts do.\<close>

lemma later_clear_settle:
  assumes "pulls s1 = pulls (clearTimeout r' s)" "handler_count r s1 \<le> handler_count r s"
    and "v \<noteq> Pending"
  shows "later r s (settle r' v s1)"
  using assms
  by (auto simp: later_def settle_def clearTimeout_def handler_count_def nth_list_update
      split: if_splits)


lemma pulls_off [simp]: "pulls (off ev cbo s) = pulls s"
  by (simp add: off_def Let_def split: option.splits)

lemma pulls_socket_off [simp]: "pulls (socket_off ev fn s) = pulls s"
  by (simp add: socket_off_def split: option.splits)

lemma handler_count_clearTimeout [simp]: "handler_count r (clearTimeout r' s) = handler_count r s"
  by (simp add: handler_count_def clearTimeout_def)

lemma handler_count_off: "handler_count r (off ev cbo s) \<le> handler_count r s"
  using later_off [of r s ev cbo]
  by (auto simp: off_def Let_def handler_count_def sock_off_def filter_remove_first split: option.splits)

lemma handler_count_socket_off: "handler_count r (socket_off ev fn s) \<le> handler_count r s"
  by (auto simp: socket_off_def handler_count_def sock_off_def filter_remove_first split: option.splits)

lemma later_handler: "later r s (handler r' e s)"
proof (cases "r' < length (pulls s)")
  case False
  then show ?thesis by (simp add: handler_def)
next
  case True
  have off: "\<And>ev v. later r s (resolve r' v (off ev (Some (Handler r')) (clearTimeout r' s)))"
    unfolding resolve_def
    by (rule later_clear_settle) (simp_all add: order_trans [OF handler_count_off])
  have soff: "\<And>ev v. later r s (resolve r' v (socket_off ev (Handler r') (clearTimeout r' s)))"
    unfolding resolve_def
    by (rule later_clear_settle) (simp_all add: order_trans [OF handler_count_socket_off])
  show ?thesis
    using True off soff by (simp add: handler_def split: query.splits)
qed

lemma later_user: "later r s (s\<lparr>trace := t\<rparr>)"
  by (simp add: later_same)

lemma later_invoke: "later r s (invoke c e s)"
proof (induction c arbitrary: s)
  case (User n)
  then show ?case by (simp add: later_same)
next
  case (Handler r')
  then show ?case by (simp add: later_handler)
next
  case (OnceHandler i ev c)
  show ?case
    using later_trans [OF later_off OnceHandler.IH] by simp
qed

lemma later_emit_each: "later r s (emit_each cs ev e s)"
proof (induction cs arbitrary: s)
  case Nil
  then show ?case by simp
next
  case (Cons c cs)
  have "later r s (if c \<in> set (eventListeners s ev) then invoke c e s else s)"
    by (simp add: later_invoke)
  from later_trans [OF this Cons.IH] show ?case
    by simp
qed

lemma later_emit: "later r s (emit ev e s)"
  unfolding emit_def by (rule later_trans [OF later_user later_emit_each])

lemma later_sock_call: "later r s (sock_call l e s)"
proof (cases l)
  case Forward
  then show ?thesis by (simp add: later_emit)
next
  case TickDispatch
  then show ?thesis
    by (simp add: tick_dispatch_def later_same split: event.splits option.splits)
next
  case (Direct fn)
  then show ?thesis by (simp add: later_invoke)
next
  case (OnceWrap fn)
  then show ?thesis
    using later_trans [OF later_unwrap_once later_invoke] by simp
qed

lemma later_sock_each: "later r s (sock_each ls e s)"
proof (induction ls arbitrary: s)
  case Nil
  then show ?case by simp
next
  case (Cons l ls)
  from later_trans [OF later_sock_call Cons.IH] show ?case
    by simp
qed

lemma later_inbound: "later r s (inbound e s)"
  by (simp add: inbound_def later_sock_each split: option.splits)


lemma later_clearTimers: "later r s (clearTimers s)"
  by (rule later_same) (simp_all add: clearTimers_def Let_def split: option.splits)

lemma later_scheduleReconnection: "later r s (scheduleReconnection s)"
  by (simp add: scheduleReconnection_def Let_def later_emit later_same)

lemma later_connectionResolved: "later r s (connectionResolved b s)"
  by (simp add: connectionResolved_def later_same)

lemma later_connect: "later r s (connect s)"
  by (rule later_eq)
    (simp_all add: connect_def setupSocketListeners_def io_def handler_count_def)

lemma later_sendSubscribe: "later r s (sendSubscribe symbol s)"
  by (simp add: sendSubscribe_def send_def later_same)

lemma later_flush: "later r s (foldl (\<lambda>s symbol. sendSubscribe symbol s) s xs)"
proof (induction xs arbitrary: s)
  case Nil
  then show ?case by simp
next
  case (Cons x xs)
  from later_trans [OF later_sendSubscribe Cons.IH] show ?case by simp
qed

lemma later_on_connect: "later r s (on_connect s)"
proof -
  let ?s0 = "s\<lparr>isConnected := True, isConnecting := False, reconnectAttempts := 0\<rparr>"
  let ?s1 = "startPingInterval ?s0"
  let ?s2 = "foldl (\<lambda>s symbol. sendSubscribe symbol s) ?s1 (pendingSubscriptions ?s1)"
  let ?s3 = "?s2\<lparr>pendingSubscriptions := []\<rparr>"
  let ?s4 = "emit Ev_connected Connected ?s3"
  have "later r s ?s1"
    by (rule later_same) (simp_all add: startPingInterval_def clearTimers_def Let_def split: option.splits)
  then have "later r s ?s2"
    by (rule later_trans) (rule later_flush)
  then have "later r s ?s3"
    by (rule later_trans) (simp add: later_same)
  then have "later r s ?s4"
    by (rule later_trans) (rule later_emit)
  then have "later r s (connectionResolved True ?s4)"
    by (rule later_trans) (rule later_connectionResolved)
  then show ?thesis
    by (simp add: on_connect_def Let_def)
qed

lemma later_on_disconnect: "later r s (on_disconnect reason s)"
proof -
  let ?s1 = "clearTimers (s\<lparr>isConnected := False\<rparr>)"
  let ?s2 = "?s1\<lparr>pendingSubscriptions :=
                 foldl (\<lambda>pending symbol. set_add symbol pending) (pendingSubscriptions ?s1)
                   (map fst (subscribers ?s1))\<rparr>"
  let ?s3 = "emit Ev_disconnected (Disconnected (Some reason)) ?s2"
  have "later r s ?s2"
    by (rule later_same) (simp_all add: clearTimers_def Let_def split: option.splits)
  then have s3: "later r s ?s3"
    by (rule later_trans) (rule later_emit)
  then have "later r s (scheduleReconnection ?s3)"
    by (rule later_trans) (rule later_scheduleReconnection)
  with s3 show ?thesis
    by (simp add: on_disconnect_def Let_def)
qed

lemma later_on_connect_error: "later r s (on_connect_error m s)"
proof -
  let ?s1 = "s\<lparr>isConnecting := False, isConnected := False\<rparr>"
  let ?s2 = "emit Ev_error (ErrorEvent (getErrorCode m) m (Some (Suc (reconnectAttempts s)))) ?s1"
  have "later r s ?s1"
    by (simp add: later_same)
  then have "later r s ?s2"
    by (rule later_trans) (rule later_emit)
  then have "later r s (scheduleReconnection ?s2)"
    by (rule later_trans) (rule later_scheduleReconnection)
  then have "later r s (connectionResolved False (scheduleReconnection ?s2))"
    by (rule later_trans) (rule later_connectionResolved)
  then show ?thesis
    by (simp add: on_connect_error_eq)
qed

lemma later_flag: "socket s = Some sk \<Longrightarrow> later r s (s\<lparr>socket := Some (sk\<lparr>sock_connected := b\<rparr>)\<rparr>)"
  by (rule later_eq) (simp_all add: handler_count_def)

lemma later_socket_disconnect: "later r s (socket_disconnect s)"
  by (auto simp: socket_disconnect_def split: option.splits
      intro: later_trans [OF later_flag later_on_disconnect])

lemma later_drop_socket: "later r s (s\<lparr>socket := None\<rparr>)"
  by (rule later_eq) (simp_all add: handler_count_def)

lemma later_disconnect: "later r s (disconnect s)"
proof -
  let ?s1 = "clearTimers s"
  let ?s2 = "if socket ?s1 \<noteq> None then (socket_disconnect ?s1)\<lparr>socket := None\<rparr> else ?s1"
  have "later r ?s1 ?s2"
    using later_trans [OF later_socket_disconnect later_drop_socket] by simp
  with later_clearTimers have "later r s ?s2"
    by (rule later_trans)
  then have "later r s (?s2\<lparr>isConnected := False, subscribers := [], pendingSubscriptions := [],
      reconnectAttempts := 0\<rparr>)"
    by (rule later_trans) (simp add: later_same)
  then show ?thesis
    by (simp add: disconnect_def Let_def)
qed

lemma later_transport:
  "later r s (transport_open s)" "later r s (transport_close reason s)"
  "later r s (transport_error m s)"
  by (auto simp: transport_open_def transport_close_def transport_error_def later_on_connect_error
      split: option.splits
      intro: later_trans [OF later_flag later_on_connect] later_trans [OF later_flag later_on_disconnect])

lemma later_reconnect_timer: "later r s (reconnect_timer t s)"
  using later_trans [OF later_same later_connect]
  by (simp add: reconnect_timer_def)

lemma later_subscribe: "later r s (subscribe symbol cb s)"
  by (rule later_same) (simp_all add: subscribe_def Let_def sendSubscribe_def send_def)

lemma later_unsubscribe: "later r s (unsubscribe symbol cbo s)"
  by (rule later_same)
    (simp_all add: unsubscribe_def Let_def sendUnsubscribe_def send_def split: option.splits)


lemma later_on: "cb \<noteq> Handler r \<Longrightarrow> later r s (on ev cb s)"
  by (rule later_eq)
    (auto simp: on_def Let_def handler_count_def sock_on_def split: option.splits)

lemma later_once: "later r s (once ev cb s)"
proof (cases "socket s")
  case None
  then show ?thesis by (simp add: once_def)
next
  case (Some sk)
  let ?h = "OnceHandler (next_once s) ev cb"
  let ?s1 = "on ev ?h (s\<lparr>next_once := Suc (next_once s)\<rparr>)"
  have "later r s (s\<lparr>next_once := Suc (next_once s)\<rparr>)"
    by (simp add: later_same)
  then have s1: "later r s ?s1"
    by (rule later_trans) (simp add: later_on)
  have "later r ?s1 (case socket ?s1 of
                Some sk \<Rightarrow> ?s1\<lparr>socket := Some (sock_once ev ?h sk)\<rparr>
              | None \<Rightarrow> ?s1)"
    by (rule later_eq) (auto simp: handler_count_def sock_once_def split: option.splits)
  with s1 show ?thesis
    using Some by (simp add: once_def Let_def later_trans)
qed

lemma later_new_pull: "later r s (new_pull q st armed s)"
  by (simp add: later_def new_pull_def nth_append handler_count_def)

lemma later_send: "later r s (send m s)"
  by (simp add: send_def later_same)

lemma later_query:
  "later r s (send m (once ev cb (new_pull q st armed s)))"
  by (rule later_trans [OF later_new_pull later_trans [OF later_once later_send]])

lemma later_getSymbols: "later r s (snd (getSymbols s))"
  by (simp add: getSymbols_def Let_def later_new_pull later_query)

lemma later_getOrderBook: "later r s (snd (getOrderBook symbol depth s))"
  by (simp add: getOrderBook_def Let_def later_new_pull later_query)

lemma later_getAccountInfo: "later r s (snd (getAccountInfo s))"
  by (simp add: getAccountInfo_def Let_def later_new_pull later_query)

lemma later_getCandles: "later r s (snd (getCandles symbol timeframe count s))"
  by (auto simp: getCandles_def Let_def later_new_pull later_def new_pull_def send_def
      nth_append handler_count_def sock_on_def split: option.splits)

lemma later_attach_then: "later r s (attach_then r' key s)"
  by (auto simp: later_def attach_then_def handler_count_def nth_list_update)

lemma later_getCandlesWithCache: "later r s (snd (getCandlesWithCache symbol timeframe count s))"
proof -
  have a: "later r s (attach_then r' key (snd (getCandles symbol timeframe count s)))" for r' key
    by (rule later_trans [OF later_getCandles later_attach_then])
  have "later r s ((attach_then r' key (snd (getCandles symbol timeframe count s)))
      \<lparr>candlesPromises := x\<rparr>)" for r' key x
    by (rule later_trans [OF a [of r' key]]) (simp add: later_same)
  then show ?thesis
    by (simp add: getCandlesWithCache_def Let_def case_prod_beta split: option.splits)
qed

lemma later_reaction: "later r s (reaction r' s)"
  by (rule later_same)
    (simp_all add: reaction_def split: option.splits promise_state.splits)

lemma later_reactions: "later r s (foldl (\<lambda>s r. reaction r s) s rs)"
proof (induction rs arbitrary: s)
  case Nil
  then show ?case by simp
next
  case (Cons x xs)
  from later_trans [OF later_reaction Cons.IH] show ?case by simp
qed

lemma later_drain: "later r s (drain s)"
  unfolding drain_def
  by (rule later_trans [OF _ later_reactions]) (simp add: later_same)

lemma later_cache_expire: "later r s (cache_expire key s)"
  by (simp add: cache_expire_def later_same)

lemma later_query_timeout: "later r s (query_timeout r' s)"
proof (cases "r' < length (pulls s) \<and> pl_timer (pulls s ! r')")
  case False
  then show ?thesis by (auto simp: query_timeout_def)
next
  case True
  have rej: "\<And>e. later r s (reject r' e (clearTimeout r' s))"
    unfolding reject_def by (rule later_clear_settle) simp_all
  have res: "\<And>v. later r s (resolve r' v (socket_off Ev_candles (Handler r') (clearTimeout r' s)))"
    unfolding resolve_def
    by (rule later_clear_settle) (simp_all add: order_trans [OF handler_count_socket_off])
  show ?thesis
    using True rej res by (simp add: query_timeout_def Let_def split: query.splits)
qed

lemma later_ping: "later r s (ping s)"
  by (simp add: ping_def later_send)

lemma later_perform: "later r s (perform t s)"
  by (cases t)
    (simp_all add: later_inbound later_transport later_reconnect_timer later_query_timeout
      later_cache_expire later_ping later_connect later_disconnect later_subscribe
      later_unsubscribe later_on later_off later_once later_getSymbols later_getCandles
      later_getOrderBook later_getAccountInfo later_getCandlesWithCache)

lemma later_step: "later r s (step t s)"
  unfolding step_def by (rule later_trans [OF later_perform later_drain])

lemma later_run: "later r s (run ts s)"
proof (induction ts arbitrary: s)
  case Nil
  then show ?case by (simp add: run_def)
next
  case (Cons t ts)
  have "run (t # ts) s = run ts (step t s)"
    by (simp add: run_def)
  with later_trans [OF later_step Cons.IH] show ?case
    by simp
qed

lemma pulls_on [simp]: "pulls (on ev cb s) = pulls s"
  by (simp add: on_def Let_def split: option.splits)

lemma pulls_once [simp]: "pulls (once ev cb s) = pulls s"
  by (simp add: once_def Let_def split: option.splits)

lemma pulls_send [simp]: "pulls (send m s) = pulls s"
  by (simp add: send_def)

lemma pulls_drain [simp]: "pulls (drain s) = pulls s"
proof -
  have "pulls (foldl (\<lambda>s r. reaction r s) s rs) = pulls s" for rs s
    by (induction rs arbitrary: s)
      (simp_all add: reaction_def split: option.splits promise_state.splits)
  then show ?thesis by (simp add: drain_def)
qed

lemma query_call:
  assumes "socket s \<noteq> None" "isConnected s"
  shows "fst (getSymbols s) = length (pulls s)"
    and "pulls (snd (getSymbols s))
           = pulls s @ [\<lparr>pl_query = QSymbols, pl_state = Pending, pl_timer = True, pl_then = None\<rparr>]"
    and "fst (getOrderBook symbol depth s) = length (pulls s)"
    and "pulls (snd (getOrderBook symbol depth s))
           = pulls s @ [\<lparr>pl_query = QOrderBook symbol, pl_state = Pending, pl_timer = True, pl_then = None\<rparr>]"
    and "fst (getAccountInfo s) = length (pulls s)"
    and "pulls (snd (getAccountInfo s))
           = pulls s @ [\<lparr>pl_query = QAccountInfo, pl_state = Pending, pl_timer = True, pl_then = None\<rparr>]"
    and "fst (getCandles symbol timeframe count s) = length (pulls s)"
    and "pulls (snd (getCandles symbol timeframe count s))
           = pulls s @ [\<lparr>pl_query = QCandles symbol timeframe, pl_state = Pending, pl_timer = True, pl_then = None\<rparr>]"
  using assms
  by (auto simp: getSymbols_def getOrderBook_def getAccountInfo_def getCandles_def Let_def
      new_pull_def)

lemma query_timeout_pending:
  assumes "r < length (pulls s)" "pl_timer (pulls s ! r)" "pl_state (pulls s ! r) = Pending"
  shows "promise_of r (query_timeout r s) = timeout_outcome (pl_query (pulls s ! r))"
  using assms
  by (cases "pl_query (pulls s ! r)")
    (simp_all add: query_timeout_def Let_def reject_def resolve_def settle_def clearTimeout_def
      promise_of_def socket_off_def split: option.splits)

lemma settles_onceI:
  assumes new: "pulls (snd call) = ps @ [\<lparr>pl_query = q, pl_state = Pending, pl_timer = True, pl_then = None\<rparr>]"
    and r: "fst call = length ps"
  shows "settles_once call (timeout_outcome q)"
proof -
  let ?r = "fst call" and ?s1 = "snd call"
  have r1: "?r < length (pulls ?s1)" and at: "pulls ?s1 ! ?r
      = \<lparr>pl_query = q, pl_state = Pending, pl_timer = True, pl_then = None\<rparr>"
    by (simp_all add: new r)
  have pending: "promise_of ?r ?s1 = Pending"
    using r1 at by (simp add: promise_of_def)
  have timeout: "promise_of ?r (step (QueryTimeout ?r) (run ts ?s1)) = timeout_outcome q"
    if p: "promise_of ?r (run ts ?s1) = Pending" for ts
  proof -
    let ?s2 = "run ts ?s1"
    have l: "later ?r ?s1 ?s2" by (rule later_run)
    then have r2: "?r < length (pulls ?s2)" and q: "pl_query (pulls ?s2 ! ?r) = q"
      using r1 at by (simp_all add: later_def)
    have st: "pl_state (pulls ?s2 ! ?r) = Pending"
      using p r2 by (simp add: promise_of_def)
    then have armed: "pl_timer (pulls ?s2 ! ?r)"
      using l r1 at by (simp add: later_def)
    have "promise_of ?r (step (QueryTimeout ?r) ?s2) = promise_of ?r (query_timeout ?r ?s2)"
      by (simp add: step_def promise_of_def)
    with query_timeout_pending [OF r2 armed st] q show ?thesis
      by simp
  qed
  have stable: "promise_of ?r (run ts' (run ts ?s1)) = promise_of ?r (run ts ?s1)"
    if p: "promise_of ?r (run ts ?s1) \<noteq> Pending" for ts ts'
  proof -
    let ?s2 = "run ts ?s1"
    have "later ?r ?s1 ?s2" by (rule later_run)
    then have r2: "?r < length (pulls ?s2)"
      using r1 by (simp add: later_def)
    then have st: "pl_state (pulls ?s2 ! ?r) \<noteq> Pending"
      using p by (simp add: promise_of_def)
    have "later ?r ?s2 (run ts' ?s2)" by (rule later_run)
    with r2 st show ?thesis
      by (simp add: later_def promise_of_def)
  qed
  show ?thesis
    unfolding settles_once_def using pending timeout stable by blast
qed

lemma filter_remove_first_same:
  "length (filter P (remove_first P xs)) = length (filter P xs) - 1"
  by (induction xs) auto

lemma handler_count_getCandles:
  assumes "socket s \<noteq> None" "isConnected s"
  shows "handler_count (length (pulls s)) (snd (getCandles symbol timeframe count s))
           = Suc (handler_count (length (pulls s)) s)"
  using assms
  by (auto simp: getCandles_def Let_def handler_count_def new_pull_def send_def sock_on_def)

lemma handler_count_drain [simp]: "handler_count r (drain s) = handler_count r s"
proof -
  have "socket (foldl (\<lambda>s r. reaction r s) s rs) = socket s" for rs s
    by (induction rs arbitrary: s)
      (simp_all add: reaction_def split: option.splits promise_state.splits)
  then show ?thesis by (simp add: drain_def handler_count_def)
qed

lemma handler_count_candles_timeout:
  assumes "r < length (pulls s)" "pl_timer (pulls s ! r)" "pl_query (pulls s ! r) = QCandles symbol timeframe"
  shows "handler_count r (query_timeout r s) = handler_count r s - 1"
  using assms
  by (auto simp: query_timeout_def Let_def resolve_def settle_def clearTimeout_def socket_off_def
      handler_count_def sock_off_def filter_remove_first_same split: option.splits)

lemma candles_deregistered:
  assumes conn: "socket s \<noteq> None" "isConnected s"
    and new: "handler_count (length (pulls s)) s = 0"
    and p: "promise_of (length (pulls s)) (run ts (snd (getCandles symbol timeframe count s))) = Pending"
  shows "handler_count (length (pulls s))
           (step (QueryTimeout (length (pulls s))) (run ts (snd (getCandles symbol timeframe count s)))) = 0"
proof -
  let ?r = "length (pulls s)" and ?s1 = "snd (getCandles symbol timeframe count s)"
  let ?s2 = "run ts ?s1"
  note call = query_call(8) [OF conn]
  have r1: "?r < length (pulls ?s1)"
    and at: "pulls ?s1 ! ?r = \<lparr>pl_query = QCandles symbol timeframe, pl_state = Pending,
                               pl_timer = True, pl_then = None\<rparr>"
    by (simp_all add: call)
  have l: "later ?r ?s1 ?s2" by (rule later_run)
  then have r2: "?r < length (pulls ?s2)"
    and q: "pl_query (pulls ?s2 ! ?r) = QCandles symbol timeframe"
    and c: "handler_count ?r ?s2 \<le> 1"
    using r1 at handler_count_getCandles [OF conn, of symbol timeframe count] new
    by (simp_all add: later_def)
  have "pl_state (pulls ?s2 ! ?r) = Pending"
    using p r2 by (simp add: promise_of_def)
  then have armed: "pl_timer (pulls ?s2 ! ?r)"
    using l r1 at by (simp add: later_def)
  from handler_count_candles_timeout [OF r2 armed q] c show ?thesis
    by (simp add: step_def)
qed

subsection \<open>Counting the calls of a listener\<close>

lemma same_for_refl [simp]: "same_for cb s s"
  by (simp add: same_for_def)

lemma same_for_trans: "same_for cb s s1 \<Longrightarrow> same_for cb s1 s2 \<Longrightarrow> same_for cb s s2"
  by (simp add: same_for_def)

lemma filter_remove_first_other:
  "(\<And>x. Q x \<Longrightarrow> \<not> P x) \<Longrightarrow> filter P (remove_first Q xs) = filter P xs"
  by (induction xs) auto

lemma filter_removeAll_other: "\<not> P x \<Longrightarrow> filter P (removeAll x xs) = filter P xs"
  by (induction xs) auto

lemma filter_sock_off:
  assumes "\<not> mentions cb h"
  shows "filter (\<lambda>l. l = Forward \<or> listener_mentions cb l)
           (remove_first (\<lambda>l. l = Direct h \<or> l = OnceWrap h) xs)
         = filter (\<lambda>l. l = Forward \<or> listener_mentions cb l) xs"
    and "filter (\<lambda>l. l = Forward \<or> listener_mentions cb l)
           (remove_first (\<lambda>l. l = OnceWrap h) xs)
         = filter (\<lambda>l. l = Forward \<or> listener_mentions cb l) xs"
    and "filter (mentions cb) (removeAll h xs') = filter (mentions cb) xs'"
  using assms by (auto intro!: filter_remove_first_other filter_removeAll_other)

lemma same_for_off: "\<not> mentions cb h \<Longrightarrow> same_for cb s (off ev (Some h) s)"
  by (auto simp: same_for_def off_def Let_def sock_part_def own_part_def calls_of_def sock_off_def
      filter_sock_off split: option.splits)

lemma same_for_socket_off: "\<not> mentions cb h \<Longrightarrow> same_for cb s (socket_off ev h s)"
  by (auto simp: same_for_def socket_off_def sock_part_def own_part_def calls_of_def sock_off_def
      filter_sock_off split: option.splits)

lemma same_for_unwrap: "\<not> mentions cb h \<Longrightarrow> same_for cb s (unwrap_once ev h s)"
  by (auto simp: same_for_def unwrap_once_def sock_part_def own_part_def calls_of_def
      sock_off_wrapper_def filter_sock_off split: option.splits)

lemma same_for_pulls:
  "same_for cb s (settle r v s)" "same_for cb s (clearTimeout r s)"
  by (simp_all add: same_for_def settle_def clearTimeout_def sock_part_def own_part_def calls_of_def)

lemma same_for_handler: "same_for cb s (handler r e s)"
proof -
  have a: "same_for cb s (resolve r v (off ev (Some (Handler r)) (clearTimeout r s)))" for v ev
    unfolding resolve_def
    by (rule same_for_trans [OF same_for_pulls(2) same_for_trans [OF same_for_off same_for_pulls(1)]])
      simp
  have b: "same_for cb s (resolve r v (socket_off ev (Handler r) (clearTimeout r s)))" for v ev
    unfolding resolve_def
    by (rule same_for_trans [OF same_for_pulls(2)
          same_for_trans [OF same_for_socket_off same_for_pulls(1)]]) simp
  show ?thesis
    by (simp add: handler_def a b split: query.splits)
qed

lemma same_for_invoke: "\<not> mentions cb c \<Longrightarrow> same_for cb s (invoke c e s)"
proof (induction c arbitrary: s)
  case (User n)
  then show ?case
    by (simp add: same_for_def sock_part_def own_part_def calls_of_def)
next
  case (Handler r)
  then show ?case by (simp add: same_for_handler)
next
  case (OnceHandler i ev c)
  then have "\<not> mentions cb (OnceHandler i ev c)" "\<not> mentions cb c"
    by simp_all
  from same_for_trans [OF same_for_off [OF this(1)] OnceHandler.IH [OF this(2)]]
  show ?case by simp
qed

lemma invoke_user:
  "sock_part cb (invoke (User cb) e s) ev = sock_part cb s ev"
  "own_part cb (invoke (User cb) e s) ev = own_part cb s ev"
  "calls_of cb (invoke (User cb) e s) = Suc (calls_of cb s)"
  "socket (invoke (User cb) e s) = socket s"
  by (simp_all add: sock_part_def own_part_def calls_of_def)

lemma counted_same: "same_for cb s s' \<Longrightarrow> counted cb 0 s s'"
  by (simp add: counted_def same_for_def)

lemma counted_refl [simp]: "counted cb 0 s s"
  by (simp add: counted_def)

lemma counted_trans: "counted cb n s s1 \<Longrightarrow> counted cb m s1 s2 \<Longrightarrow> counted cb (n + m) s s2"
  by (simp add: counted_def)

lemma counted_user: "counted cb (Suc 0) s (s\<lparr>trace := trace s @ [Invoke cb e]\<rparr>)"
  by (simp add: counted_def sock_part_def own_part_def calls_of_def)

lemma counted_other: "\<not> mentions cb c \<Longrightarrow> counted cb 0 s (invoke c e s)"
  by (rule counted_same) (rule same_for_invoke)

lemma own_member: "own_part cb s ev = [User cb] \<Longrightarrow> User cb \<in> set (eventListeners s ev)"
proof -
  assume "own_part cb s ev = [User cb]"
  then have "User cb \<in> set (filter (mentions cb) (eventListeners s ev))"
    by (simp add: own_part_def)
  then show ?thesis by simp
qed

lemma counted_emit_each:
  assumes "\<forall>c \<in> set cs. c = User cb \<or> \<not> mentions cb c" and "own_part cb s ev = [User cb]"
  shows "counted cb (count_list cs (User cb)) s (emit_each cs ev e s)"
  using assms
proof (induction cs arbitrary: s)
  case Nil
  then show ?case by simp
next
  case (Cons c cs)
  let ?s1 = "if c \<in> set (eventListeners s ev) then invoke c e s else s"
  have first: "counted cb (if c = User cb then Suc 0 else 0) s ?s1"
  proof (cases "c = User cb")
    case True
    then show ?thesis
      using own_member [OF Cons.prems(2)] by (simp add: counted_user)
  next
    case False
    then have "\<not> mentions cb c" using Cons.prems(1) by simp
    then show ?thesis
      using False by (simp add: counted_other)
  qed
  then have own: "own_part cb ?s1 ev = [User cb]"
    using Cons.prems(2) by (simp add: counted_def)
  have rest: "counted cb (count_list cs (User cb)) ?s1 (emit_each cs ev e ?s1)"
    using Cons.IH [OF _ own] Cons.prems(1) by simp
  have n: "(if c = User cb then Suc 0 else 0) + count_list cs (User cb)
      = count_list (c # cs) (User cb)"
    by simp
  from counted_trans [OF first rest] show ?case
    unfolding n emit_each.simps .
qed

lemma count_of_filter: "filter P cs = [x] \<Longrightarrow> P x \<Longrightarrow> count_list cs x = 1"
proof -
  assume a: "filter P cs = [x]" and p: "P x"
  have "count_list cs x = count_list (filter P cs) x"
    using p by (induction cs) auto
  with a show ?thesis by simp
qed

lemma counted_emit:
  assumes "own_part cb s ev = [User cb]"
  shows "counted cb (Suc 0) s (emit ev e s)"
proof -
  let ?s0 = "s\<lparr>trace := trace s @ [Emit e]\<rparr>"
  have s0: "counted cb 0 s ?s0"
    by (simp add: counted_def sock_part_def own_part_def calls_of_def)
  then have own: "own_part cb ?s0 ev = [User cb]"
    using assms by (simp add: counted_def)
  have all: "\<forall>c \<in> set (eventListeners s ev). c = User cb \<or> \<not> mentions cb c"
  proof
    fix c assume c: "c \<in> set (eventListeners s ev)"
    show "c = User cb \<or> \<not> mentions cb c"
    proof (cases "mentions cb c")
      case True
      with c have "c \<in> set (own_part cb s ev)" by (simp add: own_part_def)
      then show ?thesis using assms by simp
    next
      case False
      then show ?thesis by simp
    qed
  qed
  have one: "count_list (eventListeners s ev) (User cb) = 1"
    using assms by (intro count_of_filter [of "mentions cb"]) (simp_all add: own_part_def)
  from counted_trans [OF s0 counted_emit_each [OF all own, of e]] one show ?thesis
    by (simp add: emit_def)
qed

lemma counted_sock_call:
  assumes "l = Forward \<or> l = Direct (User cb) \<or> \<not> listener_mentions cb l"
    and "own_part cb s (name_of e) = [User cb]"
  shows "counted cb (if l = Forward \<or> l = Direct (User cb) then Suc 0 else 0) s (sock_call l e s)"
proof (cases l)
  case Forward
  then show ?thesis using assms(2) by (simp add: counted_emit)
next
  case TickDispatch
  then show ?thesis
    by (simp add: tick_dispatch_def counted_def sock_part_def own_part_def calls_of_def
        split: event.splits option.splits)
next
  case (Direct c)
  then show ?thesis
    using assms(1) by (cases "c = User cb") (auto simp: counted_user counted_other)
next
  case (OnceWrap c)
  then have c: "\<not> mentions cb c" using assms(1) by simp
  have "counted cb 0 s (unwrap_once (name_of e) c s)"
    by (rule counted_same) (rule same_for_unwrap [OF c])
  from counted_trans [OF this counted_other [OF c]] OnceWrap show ?thesis
    by simp
qed

lemma counted_sock_each:
  assumes "\<forall>l \<in> set ls. l = Forward \<or> l = Direct (User cb) \<or> \<not> listener_mentions cb l"
    and "own_part cb s (name_of e) = [User cb]"
  shows "counted cb (length (filter (\<lambda>l. l = Forward \<or> l = Direct (User cb)) ls)) s
           (sock_each ls e s)"
  using assms
proof (induction ls arbitrary: s)
  case Nil
  then show ?case by simp
next
  case (Cons l ls)
  have l: "l = Forward \<or> l = Direct (User cb) \<or> \<not> listener_mentions cb l"
    using Cons.prems(1) by simp
  note first = counted_sock_call [OF l Cons.prems(2)]
  then have own: "own_part cb (sock_call l e s) (name_of e) = [User cb]"
    using Cons.prems(2) by (simp add: counted_def)
  have rest: "counted cb (length (filter (\<lambda>l. l = Forward \<or> l = Direct (User cb)) ls))
      (sock_call l e s) (sock_each ls e (sock_call l e s))"
    using Cons.IH [OF _ own] Cons.prems(1) by simp
  have n: "(if l = Forward \<or> l = Direct (User cb) then Suc 0 else 0)
        + length (filter (\<lambda>l. l = Forward \<or> l = Direct (User cb)) ls)
      = length (filter (\<lambda>l. l = Forward \<or> l = Direct (User cb)) (l # ls))"
    by simp
  from counted_trans [OF first rest] show ?case
    unfolding n sock_each.simps .
qed

lemma counted_inbound:
  assumes "registered cb ev s" and "name_of e = ev"
  shows "counted cb (length (sock_part cb s ev)) s (inbound e s)"
proof -
  obtain sk where sk: "socket s = Some sk"
    using assms(1) by (auto simp: registered_def)
  let ?ls = "listeners sk ev"
  have part: "sock_part cb s ev = filter (\<lambda>l. l = Forward \<or> listener_mentions cb l) ?ls"
    by (simp add: sock_part_def sk)
  have sub: "set (filter (\<lambda>l. l = Forward \<or> listener_mentions cb l) ?ls) \<subseteq> {Forward, Direct (User cb)}"
    using assms(1) part by (simp add: registered_def)
  have all: "\<forall>l \<in> set ?ls. l = Forward \<or> l = Direct (User cb) \<or> \<not> listener_mentions cb l"
    using sub by auto
  have "filter (\<lambda>l. l = Forward \<or> l = Direct (User cb)) ?ls
      = filter (\<lambda>l. l = Forward \<or> listener_mentions cb l) ?ls"
    using all by (intro filter_cong) auto
  then have n: "length (filter (\<lambda>l. l = Forward \<or> l = Direct (User cb)) ?ls)
      = length (sock_part cb s ev)"
    by (simp add: part)
  have own: "own_part cb s (name_of e) = [User cb]"
    using assms by (simp add: registered_def)
  from counted_sock_each [OF _ own, of ?ls] all n assms(2) sk show ?thesis
    by (simp add: inbound_def)
qed

lemma registered_counted: "registered cb ev s \<Longrightarrow> counted cb n s s' \<Longrightarrow> registered cb ev s'"
  by (simp add: registered_def counted_def)

lemma calls_inbound_many:
  assumes "registered cb ev s" and "\<forall>e \<in> set es. name_of e = ev"
  shows "calls_of cb (foldl (\<lambda>s e. inbound e s) s es)
           = calls_of cb s + length (sock_part cb s ev) * length es"
  using assms
proof (induction es arbitrary: s)
  case Nil
  then show ?case by simp
next
  case (Cons e es)
  have e: "name_of e = ev" using Cons.prems(2) by simp
  note c = counted_inbound [OF Cons.prems(1) e]
  have r: "registered cb ev (inbound e s)"
    by (rule registered_counted [OF Cons.prems(1) c])
  have "calls_of cb (foldl (\<lambda>s e. inbound e s) (inbound e s) es)
      = calls_of cb (inbound e s) + length (sock_part cb (inbound e s) ev) * length es"
    using Cons.IH [OF r] Cons.prems(2) by simp
  with c show ?case
    by (simp add: counted_def)
qed

lemma on_registers:
  assumes sk: "socket s = Some sk" and conn: "isConnected s"
    and own: "\<forall>c \<in> set (eventListeners s ev). \<not> mentions cb c"
    and sock: "\<forall>l \<in> set (listeners sk ev). \<not> listener_mentions cb l"
  shows "registered cb ev (on ev (User cb) s)"
    and "length (sock_part cb (on ev (User cb) s) ev) = Suc (count_list (listeners sk ev) Forward)"
    and "calls_of cb (on ev (User cb) s) = calls_of cb s"
    and "User cb \<in> set (eventListeners (on ev (User cb) s) ev)"
    and "\<exists>sk'. socket (on ev (User cb) s) = Some sk' \<and> Direct (User cb) \<in> set (listeners sk' ev)"
proof -
  let ?s' = "on ev (User cb) s"
  have new: "User cb \<notin> set (eventListeners s ev)"
    using own by auto
  have el: "eventListeners ?s' ev = eventListeners s ev @ [User cb]"
    using sk conn new by (simp add: on_def Let_def set_add_def)
  have so: "socket ?s' = Some (sock_on ev (User cb) sk)"
    using sk conn by (simp add: on_def Let_def)
  have f0: "filter (mentions cb) (eventListeners s ev) = []"
    using own by (simp add: filter_empty_conv)
  have own': "own_part cb ?s' ev = [User cb]"
    by (simp add: own_part_def el f0)
  have f1: "filter (\<lambda>l. l = Forward \<or> listener_mentions cb l) (listeners sk ev)
      = filter ((=) Forward) (listeners sk ev)"
    using sock by (intro filter_cong) auto
  have part: "sock_part cb ?s' ev = filter ((=) Forward) (listeners sk ev) @ [Direct (User cb)]"
    by (simp add: sock_part_def so sock_on_def f1)
  show "registered cb ev ?s'"
    by (auto simp: registered_def so own' part)
  show "length (sock_part cb ?s' ev) = Suc (count_list (listeners sk ev) Forward)"
    by (simp add: part count_list_eq_length_filter)
  show "calls_of cb ?s' = calls_of cb s"
    using sk conn by (simp add: calls_of_def on_def Let_def)
  show "User cb \<in> set (eventListeners ?s' ev)"
    by (simp add: el)
  show "\<exists>sk'. socket ?s' = Some sk' \<and> Direct (User cb) \<in> set (listeners sk' ev)"
    by (simp add: so sock_on_def)
qed

subsection \<open>The candle cache\<close>



lemma first_call:
  assumes "socket s \<noteq> None" "isConnected s"
    and "map_of (candlesPromises s) (cacheKey symbol timeframe count) = None"
    and "map_of (candlesCache s) (cacheKey symbol timeframe count) = None"
  shows "fst (getCandlesWithCache symbol timeframe count s) = Follows (length (pulls s))"
    and "trace (snd (getCandlesWithCache symbol timeframe count s))
           = trace s @ [Send (GetCandles symbol timeframe count)]"
    and "pulls (snd (getCandlesWithCache symbol timeframe count s))
           = pulls s @ [\<lparr>pl_query = QCandles symbol timeframe, pl_state = Pending, pl_timer = True,
                         pl_then = Some (cacheKey symbol timeframe count)\<rparr>]"
    and "candlesPromises (snd (getCandlesWithCache symbol timeframe count s))
           = AList.update (cacheKey symbol timeframe count) (length (pulls s)) (candlesPromises s)"
    and "candlesCache (snd (getCandlesWithCache symbol timeframe count s)) = candlesCache s"
    and "microtasks (snd (getCandlesWithCache symbol timeframe count s)) = microtasks s"
    and "socket (snd (getCandlesWithCache symbol timeframe count s)) \<noteq> None"
    and "isConnected (snd (getCandlesWithCache symbol timeframe count s))"
  using assms
  by (auto simp: getCandlesWithCache_def getCandles_def Let_def new_pull_def send_def
      attach_then_def)



subsection \<open>Pull queries without a connection\<close>

text \<open>
  Claim C3, as amended. A pull query called while the socket is null or the client is not
  connected settles its promise at once and does nothing else: the state is the old one
  with one more promise, whose timer is not armed, so no listener is registered and
  nothing is sent. \<^verbatim>\<open>getSymbols\<close>, \<^verbatim>\<open>getOrderBook\<close> and \<^verbatim>\<open>getAccountInfo\<close> reject the promise
  with the error \<^verbatim>\<open>Not connected to Socket.IO server\<close>; \<^verbatim>\<open>getCandles\<close> resolves it with the
  empty list of candles.
\<close>

theorem pull_query_not_connected:
  assumes "socket s = None \<or> \<not> isConnected s"
  shows "getSymbols s = (length (pulls s), new_pull QSymbols (Rejected not_connected) False s)
     \<and> getOrderBook symbol depth s
         = (length (pulls s), new_pull (QOrderBook symbol) (Rejected not_connected) False s)
     \<and> getAccountInfo s
         = (length (pulls s), new_pull QAccountInfo (Rejected not_connected) False s)
     \<and> getCandles symbol timeframe count s
         = (length (pulls s),
            new_pull (QCandles symbol timeframe) (Resolved (VCandles [])) False s)"
  using assms
  by (auto simp: getSymbols_def getOrderBook_def getAccountInfo_def getCandles_def Let_def)

text \<open>The client before its first connection: an order-book query and a candle query.\<close>

theorem pull_query_not_connected_witness:
  "promise_of (fst (getOrderBook ''EURUSD'' 10 initial)) (snd (getOrderBook ''EURUSD'' 10 initial))
     = Rejected (Error ''Not connected to Socket.IO server'')
   \<and> promise_of (fst (getCandles ''EURUSD'' ''M5'' 100 initial))
        (snd (getCandles ''EURUSD'' ''M5'' 100 initial))
     = Resolved (VCandles [])
   \<and> trace (snd (getOrderBook ''EURUSD'' 10 initial)) = []
   \<and> socket (snd (getOrderBook ''EURUSD'' 10 initial)) = None"
proof -
  have "socket initial = None \<or> \<not> isConnected initial"
    by (simp add: initial_def)
  from pull_query_not_connected [OF this, of "''EURUSD''" 10 "''M5''" 100]
  show ?thesis
    by (simp add: new_pull_def promise_of_def not_connected_def initial_def)
qed

text \<open>
  Claim C3 as stated fails for \<^verbatim>\<open>getCandles\<close>: called on a client that is not connected, its
  promise is resolved with the empty list and is not rejected.
\<close>

theorem getCandles_not_connected_counterexample:
  "\<not> isConnected initial
   \<and> promise_of (fst (getCandles ''EURUSD'' ''M5'' 100 initial))
        (snd (getCandles ''EURUSD'' ''M5'' 100 initial)) = Resolved (VCandles [])
   \<and> (\<forall>e. promise_of (fst (getCandles ''EURUSD'' ''M5'' 100 initial))
        (snd (getCandles ''EURUSD'' ''M5'' 100 initial)) \<noteq> Rejected e)"
  by (simp add: getCandles_def promise_of_def new_pull_def initial_def Let_def)

subsection \<open>Timeout of a pull query\<close>

text \<open>
  Claim C1, as amended. Call a pull query on a connected client. Its promise is pending.
  Let any tasks run. If the promise is still pending when the timer of the query fires, the
  timeout settles it: \<^verbatim>\<open>getSymbols\<close>, \<^verbatim>\<open>getOrderBook\<close> and \<^verbatim>\<open>getAccountInfo\<close> reject it with their
  \<^verbatim>\<open>Timeout waiting for ...\<close> error, and \<^verbatim>\<open>getCandles\<close> resolves it with the empty list of candles.
  Once the promise is settled, by a response or by the timeout, no later task changes its
  state, so a late response after the timeout and a timeout after the response have no
  effect. For \<^verbatim>\<open>getCandles\<close>, whose handler is a new function (registered nowhere before the
  call), the handler is no longer registered on the socket after the timeout.
\<close>

theorem pull_query_timeout:
  assumes "socket s \<noteq> None" and "isConnected s"
  shows "settles_once (getSymbols s) (Rejected (Error ''Timeout waiting for symbols''))
       \<and> settles_once (getOrderBook symbol depth s)
           (Rejected (Error ''Timeout waiting for order book''))
       \<and> settles_once (getAccountInfo s) (Rejected (Error ''Timeout waiting for account info''))
       \<and> settles_once (getCandles symbol timeframe count s) (Resolved (VCandles []))
       \<and> (handler_count (length (pulls s)) s = 0 \<longrightarrow>
            (\<forall>ts. promise_of (length (pulls s))
                     (run ts (snd (getCandles symbol timeframe count s))) = Pending \<longrightarrow>
                  handler_count (length (pulls s))
                    (step (QueryTimeout (length (pulls s)))
                       (run ts (snd (getCandles symbol timeframe count s)))) = 0))"
proof -
  note call = query_call [OF assms]
  have "settles_once (getSymbols s) (timeout_outcome QSymbols)"
    by (rule settles_onceI [OF call(2,1)])
  moreover have "settles_once (getOrderBook symbol depth s) (timeout_outcome (QOrderBook symbol))"
    by (rule settles_onceI [OF call(4,3)])
  moreover have "settles_once (getAccountInfo s) (timeout_outcome QAccountInfo)"
    by (rule settles_onceI [OF call(6,5)])
  moreover have "settles_once (getCandles symbol timeframe count s)
      (timeout_outcome (QCandles symbol timeframe))"
    by (rule settles_onceI [OF call(8,7)])
  ultimately show ?thesis
    using candles_deregistered [OF assms] by simp
qed

text \<open>
  An order-book query on a connected client that times out; the response that arrives
  afterwards leaves the promise rejected. A candle query that times out is resolved with
  the empty list, and its handler is off the socket.
\<close>

theorem pull_query_timeout_witness:
  "promise_of 0 (step (QueryTimeout 0) (snd (getOrderBook ''EURUSD'' 10 live)))
     = Rejected (Error ''Timeout waiting for order book'')
   \<and> promise_of 0 (run [Inbound (OrderBook ''EURUSD'' (OrderBookData 2))]
                   (run [QueryTimeout 0] (snd (getOrderBook ''EURUSD'' 10 live))))
     = Rejected (Error ''Timeout waiting for order book'')
   \<and> promise_of 0 (step (QueryTimeout 0) (snd (getCandles ''EURUSD'' ''M5'' 100 live)))
     = Resolved (VCandles [])
   \<and> handler_count 0 (step (QueryTimeout 0) (snd (getCandles ''EURUSD'' ''M5'' 100 live))) = 0"
proof -
  have conn: "socket live \<noteq> None" "isConnected live"
    by code_simp+
  have r: "fst (getOrderBook ''EURUSD'' 10 live) = 0" "fst (getCandles ''EURUSD'' ''M5'' 100 live) = 0"
    "length (pulls live) = 0"
    by code_simp+
  have new: "handler_count 0 live = 0"
    by code_simp
  let ?s1 = "snd (getOrderBook ''EURUSD'' 10 live)"
  let ?c1 = "snd (getCandles ''EURUSD'' ''M5'' 100 live)"
  let ?out = "Rejected (Error ''Timeout waiting for order book'')"
  note all = pull_query_timeout [OF conn, of "''EURUSD''" 10 "''M5''" 100]
  from all have "settles_once (getOrderBook ''EURUSD'' 10 live) ?out"
    by blast
  then have pending: "promise_of 0 ?s1 = Pending"
    and timeout: "\<And>ts. promise_of 0 (run ts ?s1) = Pending \<Longrightarrow>
        promise_of 0 (step (QueryTimeout 0) (run ts ?s1)) = ?out"
    and stable: "\<And>ts ts'. promise_of 0 (run ts ?s1) \<noteq> Pending \<Longrightarrow>
        promise_of 0 (run ts' (run ts ?s1)) = promise_of 0 (run ts ?s1)"
    unfolding settles_once_def r by blast+
  from all have "settles_once (getCandles ''EURUSD'' ''M5'' 100 live) (Resolved (VCandles []))"
    by blast
  then have c_pending: "promise_of 0 ?c1 = Pending"
    and c_timeout: "\<And>ts. promise_of 0 (run ts ?c1) = Pending \<Longrightarrow>
        promise_of 0 (step (QueryTimeout 0) (run ts ?c1)) = Resolved (VCandles [])"
    unfolding settles_once_def r by blast+
  from all new have c_off: "\<And>ts. promise_of 0 (run ts ?c1) = Pending \<Longrightarrow>
        handler_count 0 (step (QueryTimeout 0) (run ts ?c1)) = 0"
    unfolding r by blast
  have run0: "run [] ?s1 = ?s1" "run [] ?c1 = ?c1"
    and run1: "run [QueryTimeout 0] ?s1 = step (QueryTimeout 0) ?s1"
    by (simp_all add: run_def)
  from timeout [of "[]"] pending have out: "promise_of 0 (step (QueryTimeout 0) ?s1) = ?out"
    by (simp add: run0)
  then have "promise_of 0 (run [QueryTimeout 0] ?s1) \<noteq> Pending"
    by (simp add: run1)
  from stable [OF this, of "[Inbound (OrderBook ''EURUSD'' (OrderBookData 2))]"] out
  have late: "promise_of 0 (run [Inbound (OrderBook ''EURUSD'' (OrderBookData 2))]
      (run [QueryTimeout 0] ?s1)) = ?out"
    by (simp add: run1)
  from c_timeout [of "[]"] c_off [of "[]"] c_pending
  have "promise_of 0 (step (QueryTimeout 0) ?c1) = Resolved (VCandles [])"
    "handler_count 0 (step (QueryTimeout 0) ?c1) = 0"
    by (simp_all add: run0)
  with out late show ?thesis
    by simp
qed

text \<open>
  The timer callbacks of the other three queries only reject: after the timeout of the
  order-book query its \<^verbatim>\<open>onceHandler\<close> is still registered, in \<open>eventListeners\<close> and twice on the
  socket.
\<close>

lemma order_book_timeout_keeps_listener:
  "eventListeners (run [CallGetOrderBook ''EURUSD'' 10, QueryTimeout 0] live) Ev_order_book
     = [OnceHandler 0 Ev_order_book (Handler 0)]
   \<and> map_option (\<lambda>sk. listeners sk Ev_order_book)
        (socket (run [CallGetOrderBook ''EURUSD'' 10, QueryTimeout 0] live))
     = Some [Forward, Direct (OnceHandler 0 Ev_order_book (Handler 0)),
             OnceWrap (OnceHandler 0 Ev_order_book (Handler 0))]"
  by code_simp

text \<open>
  Claim C1 as stated fails for \<^verbatim>\<open>getCandles\<close>: when its timer fires the promise is resolved
  with the empty list and not rejected.
\<close>

theorem getCandles_timeout_counterexample:
  "promise_of 0 (run [CallGetCandles ''EURUSD'' ''M5'' 100, QueryTimeout 0] live)
     = Resolved (VCandles [])
   \<and> (\<forall>e. promise_of 0 (run [CallGetCandles ''EURUSD'' ''M5'' 100, QueryTimeout 0] live)
          \<noteq> Rejected e)"
proof -
  have "promise_of 0 (run [CallGetCandles ''EURUSD'' ''M5'' 100, QueryTimeout 0] live)
     = Resolved (VCandles [])"
    by code_simp
  then show ?thesis by simp
qed

subsection \<open>An order-book response for another symbol\<close>

text \<open>
  Claim C2 fails for \<^verbatim>\<open>getOrderBook\<close>. On a connected client, query the order book of
  \<^verbatim>\<open>EURUSD\<close>; an \<^verbatim>\<open>order_book\<close> event for \<^verbatim>\<open>GBPUSD\<close> arrives first. The query has registered its
  handler through \<^verbatim>\<open>once\<close>, whose \<^verbatim>\<open>onceHandler\<close> removes itself at the first event whatever its
  symbol: afterwards the handler is registered neither in \<open>eventListeners\<close> nor on the socket,
  the promise is still pending after the \<^verbatim>\<open>EURUSD\<close> event has arrived, and the timeout rejects
  it.
\<close>

theorem order_book_other_symbol_first:
  "eventListeners
     (run [CallGetOrderBook ''EURUSD'' 10, Inbound (OrderBook ''GBPUSD'' (OrderBookData 1))] live)
     Ev_order_book = []
   \<and> map_option (\<lambda>sk. listeners sk Ev_order_book)
        (socket (run [CallGetOrderBook ''EURUSD'' 10,
                      Inbound (OrderBook ''GBPUSD'' (OrderBookData 1))] live))
       = Some [Forward]
   \<and> promise_of 0
        (run [CallGetOrderBook ''EURUSD'' 10, Inbound (OrderBook ''GBPUSD'' (OrderBookData 1)),
              Inbound (OrderBook ''EURUSD'' (OrderBookData 2))] live) = Pending
   \<and> promise_of 0
        (run [CallGetOrderBook ''EURUSD'' 10, Inbound (OrderBook ''GBPUSD'' (OrderBookData 1)),
              Inbound (OrderBook ''EURUSD'' (OrderBookData 2)), QueryTimeout 0] live)
       = Rejected (Error ''Timeout waiting for order book'')"
  by code_simp

text \<open>
  The candle query registers its handler with \<^verbatim>\<open>socket.on\<close> and does what the claim says: the
  event for another symbol is ignored and the matching one resolves the promise.
\<close>

lemma candles_other_symbol_first:
  "promise_of 0
     (run [CallGetCandles ''EURUSD'' ''M5'' 100, Inbound (Candles ''GBPUSD'' ''M5'' (Some [Candle 1])),
           Inbound (Candles ''EURUSD'' ''M5'' (Some [Candle 2]))] live)
     = Resolved (VCandles [Candle 2])"
  by code_simp

subsection \<open>Coalescing of candle requests\<close>



text \<open>
  The same with the tasks of the client: two calls, then the response arrives. One message
  was sent, the promise is resolved with the candles of the response, these are cached and
  no promise is in flight.
\<close>

lemma coalescing_scenario:
  "trace (run [CallGetCandlesWithCache ''BTCUSD'' ''M5'' 100,
              CallGetCandlesWithCache ''BTCUSD'' ''M5'' 100,
              Inbound (Candles ''BTCUSD'' ''M5'' (Some [Candle 1]))] live)
     = [Emit Connected, Send (GetCandles ''BTCUSD'' ''M5'' 100),
        Emit (Candles ''BTCUSD'' ''M5'' (Some [Candle 1]))]
   \<and> promise_of 0 (run [CallGetCandlesWithCache ''BTCUSD'' ''M5'' 100,
                        CallGetCandlesWithCache ''BTCUSD'' ''M5'' 100,
                        Inbound (Candles ''BTCUSD'' ''M5'' (Some [Candle 1]))] live)
     = Resolved (VCandles [Candle 1])
   \<and> candlesCache (run [CallGetCandlesWithCache ''BTCUSD'' ''M5'' 100,
                        CallGetCandlesWithCache ''BTCUSD'' ''M5'' 100,
                        Inbound (Candles ''BTCUSD'' ''M5'' (Some [Candle 1]))] live)
     = [(''BTCUSD_M5_100'', VCandles [Candle 1])]
   \<and> candlesPromises (run [CallGetCandlesWithCache ''BTCUSD'' ''M5'' 100,
                           CallGetCandlesWithCache ''BTCUSD'' ''M5'' 100,
                           Inbound (Candles ''BTCUSD'' ''M5'' (Some [Candle 1]))] live)
     = []"
  by code_simp


subsection \<open>One subscribe message for many callbacks\<close>

text \<open>
  Claim C4. Take a symbol with no callback and subscribe \<open>N \<ge> 1\<close> callbacks to it. If the
  client is connected (the socket is there and \<open>isConnected\<close> holds), exactly one
  \<^verbatim>\<open>subscribe\<close> message is sent, by the first call, and nothing is queued; if not, nothing is
  sent and the symbol is added once to \<open>pendingSubscriptions\<close>. Afterwards, through any
  sequence of \<^verbatim>\<open>subscribe\<close> and \<^verbatim>\<open>unsubscribe\<close> calls for the symbol before each of which the
  symbol still has a callback, the number of \<^verbatim>\<open>subscribe\<close> messages sent for the symbol
  does not change and nothing more is queued.
\<close>

theorem subscribe_multiplexing:
  assumes "map_of (subscribers s) symbol = None" and "cbs \<noteq> []"
    and "s' = foldl (\<lambda>s cb. subscribe symbol cb s) s cbs"
    and "\<forall>k < length ops.
           map_of (subscribers (foldl (apply_op symbol) s' (take k ops))) symbol \<noteq> None"
  shows "(if socket s \<noteq> None \<and> isConnected s
          then trace s' = trace s @ [Send (Subscribe symbol ''M5'')]
               \<and> pendingSubscriptions s' = pendingSubscriptions s
          else trace s' = trace s
               \<and> pendingSubscriptions s' = set_add symbol (pendingSubscriptions s))
       \<and> subscribe_sends symbol (foldl (apply_op symbol) s' ops) = subscribe_sends symbol s'
       \<and> pendingSubscriptions (foldl (apply_op symbol) s' ops) = pendingSubscriptions s'"
proof -
  obtain cb rest where cbs: "cbs = cb # rest"
    using assms(2) by (cases cbs) auto
  let ?s1 = "subscribe symbol cb s"
  have s': "s' = foldl (\<lambda>s cb. subscribe symbol cb s) ?s1 rest"
    by (simp add: assms(3) cbs)
  have sub1: "map_of (subscribers ?s1) symbol \<noteq> None"
    using subscribe_first(5) [OF assms(1)] by simp
  from subscribe_many_again [OF sub1, of rest] s'
  have rest: "trace s' = trace ?s1" "pendingSubscriptions s' = pendingSubscriptions ?s1"
    by simp_all
  have first: "if socket s \<noteq> None \<and> isConnected s
          then trace s' = trace s @ [Send (Subscribe symbol ''M5'')]
               \<and> pendingSubscriptions s' = pendingSubscriptions s
          else trace s' = trace s
               \<and> pendingSubscriptions s' = set_add symbol (pendingSubscriptions s)"
    using subscribe_first(1-4) [OF assms(1), of cb] rest
    by (cases "socket s \<noteq> None \<and> isConnected s") simp_all
  from first ops_while_subscribed [OF assms(4)] show ?thesis
    by simp
qed

text \<open>
  A connected client: three callbacks for \<^verbatim>\<open>EURUSD\<close>, then one removed, a fourth added and
  another removed. One \<^verbatim>\<open>subscribe\<close> message has been sent. On a client that is not connected
  the three calls send nothing and queue the symbol once.
\<close>

theorem subscribe_multiplexing_witness:
  "trace (foldl (\<lambda>s cb. subscribe ''EURUSD'' cb s) live [1, 2, 3])
     = trace live @ [Send (Subscribe ''EURUSD'' ''M5'')]
   \<and> subscribe_sends ''EURUSD''
        (foldl (apply_op ''EURUSD'') (foldl (\<lambda>s cb. subscribe ''EURUSD'' cb s) live [1, 2, 3])
           [Remove 1, Add 4, Remove 2]) = 1
   \<and> trace (foldl (\<lambda>s cb. subscribe ''EURUSD'' cb s) initial [1, 2, 3]) = []
   \<and> pendingSubscriptions (foldl (\<lambda>s cb. subscribe ''EURUSD'' cb s) initial [1, 2, 3])
       = [''EURUSD'']"
proof -
  let ?s' = "foldl (\<lambda>s cb. subscribe ''EURUSD'' cb s) live [1, 2, 3]"
  let ?ops = "[Remove 1, Add 4, Remove 2]"
  have none: "map_of (subscribers live) ''EURUSD'' = None"
    by code_simp
  have conn: "socket live \<noteq> None \<and> isConnected live"
    by code_simp
  have k0: "map_of (subscribers (foldl (apply_op ''EURUSD'') ?s' (take 0 ?ops))) ''EURUSD'' \<noteq> None"
    by code_simp
  have k1: "map_of (subscribers (foldl (apply_op ''EURUSD'') ?s' (take 1 ?ops))) ''EURUSD'' \<noteq> None"
    by code_simp
  have k2: "map_of (subscribers (foldl (apply_op ''EURUSD'') ?s' (take 2 ?ops))) ''EURUSD'' \<noteq> None"
    by code_simp
  have still: "\<forall>k < length ?ops.
      map_of (subscribers (foldl (apply_op ''EURUSD'') ?s' (take k ?ops))) ''EURUSD'' \<noteq> None"
  proof (intro allI impI)
    fix k assume "k < length ?ops"
    then have "k = 0 \<or> k = 1 \<or> k = 2"
      by auto
    with k0 k1 k2 show
      "map_of (subscribers (foldl (apply_op ''EURUSD'') ?s' (take k ?ops))) ''EURUSD'' \<noteq> None"
      by blast
  qed
  have sent: "subscribe_sends ''EURUSD'' ?s' = 1"
    by code_simp
  from subscribe_multiplexing [OF none _ refl still] conn sent
  have a: "trace ?s' = trace live @ [Send (Subscribe ''EURUSD'' ''M5'')]
      \<and> subscribe_sends ''EURUSD'' (foldl (apply_op ''EURUSD'') ?s' ?ops) = 1"
    by simp
  have none0: "map_of (subscribers initial) ''EURUSD'' = None"
    and off: "socket initial = None"
    and start: "trace initial = []" "pendingSubscriptions initial = []"
    by (simp_all add: initial_def)
  have no_ops: "\<forall>k < length ([] :: sub_op list).
      map_of (subscribers (foldl (apply_op ''EURUSD'')
        (foldl (\<lambda>s cb. subscribe ''EURUSD'' cb s) initial [1, 2, 3]) (take k []))) ''EURUSD'' \<noteq> None"
    by simp
  from subscribe_multiplexing [OF none0 _ refl no_ops] off start
  have "trace (foldl (\<lambda>s cb. subscribe ''EURUSD'' cb s) initial [1, 2, 3]) = []
      \<and> pendingSubscriptions (foldl (\<lambda>s cb. subscribe ''EURUSD'' cb s) initial [1, 2, 3])
        = [''EURUSD'']"
    by (simp add: set_add_def)
  with a show ?thesis
    by simp
qed

subsection \<open>Replay of the subscriptions after a reconnection\<close>

text \<open>
  Claim C6, as amended. Let the socket close (for any reason) while symbols are subscribed,
  and let it then connect again; \<open>pendingSubscriptions\<close> is a set, so it holds no symbol
  twice. What the \<^verbatim>\<open>connect\<close> handler does is, in this order: it sends one \<^verbatim>\<open>subscribe\<close> message
  for each pending symbol, among them exactly one for every symbol that was subscribed
  when the socket closed; then it emits \<^verbatim>\<open>connected\<close>, which calls the listeners of that
  event. The \<^verbatim>\<open>connected\<close> event comes after the \<^verbatim>\<open>subscribe\<close> messages, not before them.
\<close>

theorem reconnect_replay:
  assumes "socket s \<noteq> None" and "distinct (pendingSubscriptions s)"
    and "shut = on_disconnect reason s"
    and "sends = map (\<lambda>symbol. Send (Subscribe symbol ''M5'')) (pendingSubscriptions shut)"
  shows "\<exists>calls. trace (on_connect shut) = trace shut @ sends @ Emit Connected # calls
              \<and> list_all is_invoke calls
              \<and> (\<forall>symbol \<in> fst ` set (subscribers s).
                    count_list sends (Send (Subscribe symbol ''M5'')) = 1)"
proof -
  have sock: "socket shut \<noteq> None"
    using assms(1,3) by (simp add: on_disconnect_socket)
  have d: "distinct (pendingSubscriptions shut)"
    using assms(2,3) by (simp add: on_disconnect_pending)
  have inj: "inj (\<lambda>symbol. Send (Subscribe symbol ''M5''))"
    by (simp add: inj_def)
  have "distinct sends"
    using d inj by (simp add: assms(4) distinct_map inj_on_def)
  moreover have "\<forall>symbol \<in> fst ` set (subscribers s). Send (Subscribe symbol ''M5'') \<in> set sends"
    using assms(3,4) by (auto simp: on_disconnect_pending)
  ultimately have one: "\<forall>symbol \<in> fst ` set (subscribers s).
      count_list sends (Send (Subscribe symbol ''M5'')) = 1"
    by (simp add: distinct_count_list_one)
  from on_connect_trace [OF sock] one assms(4) show ?thesis
    by auto
qed

text \<open>A connected client subscribed to \<^verbatim>\<open>EURUSD\<close> whose transport closes and reopens.\<close>

theorem reconnect_replay_witness:
  "\<exists>calls.
     trace (on_connect (on_disconnect ''transport close'' (subscribe ''EURUSD'' 1 live)))
       = trace (on_disconnect ''transport close'' (subscribe ''EURUSD'' 1 live))
         @ [Send (Subscribe ''EURUSD'' ''M5'')] @ Emit Connected # calls
     \<and> list_all is_invoke calls"
proof -
  let ?s = "subscribe ''EURUSD'' 1 live"
  have sock: "socket ?s \<noteq> None"
    by code_simp
  have dist: "distinct (pendingSubscriptions ?s)"
    by code_simp
  have pend: "pendingSubscriptions (on_disconnect ''transport close'' ?s) = [''EURUSD'']"
    by code_simp
  from reconnect_replay [OF sock dist refl refl, of "''transport close''"] pend
  show ?thesis
    by auto
qed

text \<open>
  Claim C6 as stated fails in its last part. Subscribe to \<^verbatim>\<open>EURUSD\<close>, close the transport,
  open it again: after the \<^verbatim>\<open>disconnected\<close> event the client first sends the \<^verbatim>\<open>subscribe\<close>
  message and then emits \<^verbatim>\<open>connected\<close>.
\<close>

theorem connected_after_resubscribe_counterexample:
  "trace (run [CallConnect, TransportOpen, CallSubscribe ''EURUSD'' 1,
              TransportClose ''transport close'', TransportOpen] initial)
     = [Emit Connected, Send (Subscribe ''EURUSD'' ''M5''),
        Emit (Disconnected (Some ''transport close'')),
        Send (Subscribe ''EURUSD'' ''M5''), Emit Connected]"
  by code_simp

subsection \<open>Reconnection after the socket closed\<close>




subsection \<open>Backoff\<close>



subsection \<open>A listener added while connected\<close>

text \<open>
  Claim C9, as amended. Let the client be connected, with a socket on which
  \<^verbatim>\<open>setupSocketListeners\<close> registered its handlers (one forwarder for every event name but
  \<^verbatim>\<open>tick\<close>, none for \<^verbatim>\<open>tick\<close>), and let \<open>cb\<close> be a function that is not yet registered for the
  event name. After \<^verbatim>\<open>on(event, cb)\<close> the function is in the listener set of the client and on
  the socket. For every event name other than \<^verbatim>\<open>tick\<close>, each inbound event of that name then
  calls \<open>cb\<close> twice: once through the forwarder and \<^verbatim>\<open>emit\<close>, once from the socket. Inbound
  \<^verbatim>\<open>tick\<close> events are not forwarded to the listener set, so a \<^verbatim>\<open>tick\<close> listener is called once
  for each.
\<close>

theorem listener_called_twice:
  assumes "socket s = Some sk" and "isConnected s"
    and "count_list (listeners sk ev) Forward = (if ev = Ev_tick then 0 else 1)"
    and "\<forall>c \<in> set (eventListeners s ev). \<not> mentions cb c"
    and "\<forall>l \<in> set (listeners sk ev). \<not> listener_mentions cb l"
    and "\<forall>e \<in> set es. name_of e = ev"
  shows "User cb \<in> set (eventListeners (on ev (User cb) s) ev)
       \<and> (\<exists>sk'. socket (on ev (User cb) s) = Some sk' \<and> Direct (User cb) \<in> set (listeners sk' ev))
       \<and> calls_of cb (foldl (\<lambda>s e. inbound e s) (on ev (User cb) s) es)
           = calls_of cb s + (if ev = Ev_tick then 1 else 2) * length es"
proof -
  note reg = on_registers [OF assms(1,2,4,5)]
  from calls_inbound_many [OF reg(1) assms(6)] reg(2,3) assms(3)
  have "calls_of cb (foldl (\<lambda>s e. inbound e s) (on ev (User cb) s) es)
      = calls_of cb s + (if ev = Ev_tick then 1 else 2) * length es"
    by simp
  with reg(4,5) show ?thesis
    by blast
qed

text \<open>
  A listener for \<^verbatim>\<open>health\<close> added to a connected client, and two \<^verbatim>\<open>health\<close> events; a listener
  for \<^verbatim>\<open>tick\<close>, and two \<^verbatim>\<open>tick\<close> events.
\<close>

theorem listener_called_twice_witness:
  "calls_of 8 (foldl (\<lambda>s e. inbound e s) (on Ev_health (User 8) live) [Health 1, Health 2]) = 4
   \<and> calls_of 7 (foldl (\<lambda>s e. inbound e s) (on Ev_tick (User 7) live)
                   [Tick ''EURUSD'' (TickData 1), Tick ''EURUSD'' (TickData 2)]) = 2"
proof -
  have "socket live \<noteq> None"
    by code_simp
  then have sk: "socket live = Some (the (socket live))"
    by simp
  have conn: "isConnected live"
    by code_simp
  have fwd: "count_list (listeners (the (socket live)) Ev_health) Forward
      = (if Ev_health = Ev_tick then 0 else 1)"
    by code_simp
  have own: "\<forall>c \<in> set (eventListeners live Ev_health). \<not> mentions 8 c"
    by code_simp
  have sock: "\<forall>l \<in> set (listeners (the (socket live)) Ev_health). \<not> listener_mentions 8 l"
    by code_simp
  have es: "\<forall>e \<in> set [Health 1, Health 2]. name_of e = Ev_health"
    by simp
  have before: "calls_of 8 live = 0" "calls_of 7 live = 0"
    by code_simp+
  from listener_called_twice [OF sk conn fwd own sock es] before
  have a: "calls_of 8 (foldl (\<lambda>s e. inbound e s) (on Ev_health (User 8) live)
      [Health 1, Health 2]) = 4"
    by simp
  have fwd': "count_list (listeners (the (socket live)) Ev_tick) Forward
      = (if Ev_tick = Ev_tick then 0 else 1)"
    by code_simp
  have own': "\<forall>c \<in> set (eventListeners live Ev_tick). \<not> mentions 7 c"
    by code_simp
  have sock': "\<forall>l \<in> set (listeners (the (socket live)) Ev_tick). \<not> listener_mentions 7 l"
    by code_simp
  have es': "\<forall>e \<in> set [Tick ''EURUSD'' (TickData 1), Tick ''EURUSD'' (TickData 2)].
      name_of e = Ev_tick"
    by simp
  from listener_called_twice [OF sk conn fwd' own' sock' es'] before
  have "calls_of 7 (foldl (\<lambda>s e. inbound e s) (on Ev_tick (User 7) live)
      [Tick ''EURUSD'' (TickData 1), Tick ''EURUSD'' (TickData 2)]) = 2"
    by simp
  with a show ?thesis
    by simp
qed

text \<open>
  Claim C9 as stated fails for the event name \<^verbatim>\<open>tick\<close>: a listener added with
  \<^verbatim>\<open>on('tick', cb)\<close> while connected is called once by an inbound \<^verbatim>\<open>tick\<close> event.
\<close>

theorem tick_listener_called_once_counterexample:
  "calls_of 7 (run [CallOn Ev_tick 7] live) = 0
   \<and> calls_of 7 (run [CallOn Ev_tick 7, Inbound (Tick ''EURUSD'' (TickData 1))] live) = 1"
  by code_simp

subsection \<open>The cache key\<close>

text \<open>
  Claim C10. The cache key is \<^verbatim>\<open>symbol + "_" + timeframe + "_" + count\<close>, which is not
  injective: the requests (\<^verbatim>\<open>A_B\<close>, \<^verbatim>\<open>C\<close>) and (\<^verbatim>\<open>A\<close>, \<^verbatim>\<open>B_C\<close>) with the same count have the
  same key although they differ. So in every state a call of \<^verbatim>\<open>getCandlesWithCache\<close> for the
  second request, right after one for the first, returns what the first call returned
  (the promise in flight or the cached candles of the first request) and changes nothing:
  no request for the second is sent.
\<close>

theorem cache_key_not_injective:
  "cacheKey ''A_B'' ''C'' count = cacheKey ''A'' ''B_C'' count
   \<and> (''A_B'', ''C'') \<noteq> (''A'', ''B_C'')
   \<and> getCandlesWithCache ''A'' ''B_C'' count (snd (getCandlesWithCache ''A_B'' ''C'' count s))
       = getCandlesWithCache ''A_B'' ''C'' count s"
proof -
  let ?k = "cacheKey ''A_B'' ''C'' count"
  have k: "cacheKey ''A'' ''B_C'' count = ?k"
    by (simp add: cacheKey_def)
  have "getCandlesWithCache ''A'' ''B_C'' count (snd (getCandlesWithCache ''A_B'' ''C'' count s))
       = getCandlesWithCache ''A_B'' ''C'' count s"
    unfolding getCandlesWithCache_def k Let_def
    by (simp add: update_conv' split: option.splits prod.splits)
  then show ?thesis
    using k by simp
qed

text \<open>
  On a connected client the call for (\<^verbatim>\<open>A\<close>, \<^verbatim>\<open>B_C\<close>, 100) gets the promise of the call for
  (\<^verbatim>\<open>A_B\<close>, \<^verbatim>\<open>C\<close>, 100); the only request sent is the one for \<^verbatim>\<open>A_B\<close>.
\<close>

theorem cache_key_not_injective_witness:
  "fst (getCandlesWithCache ''A'' ''B_C'' 100 (snd (getCandlesWithCache ''A_B'' ''C'' 100 live)))
     = Follows 0
   \<and> trace (snd (getCandlesWithCache ''A'' ''B_C'' 100
                  (snd (getCandlesWithCache ''A_B'' ''C'' 100 live))))
     = [Emit Connected, Send (GetCandles ''A_B'' ''C'' 100)]"
proof -
  have first: "fst (getCandlesWithCache ''A_B'' ''C'' 100 live) = Follows 0"
    by code_simp
  have sent: "trace (snd (getCandlesWithCache ''A_B'' ''C'' 100 live))
      = [Emit Connected, Send (GetCandles ''A_B'' ''C'' 100)]"
    by code_simp
  from cache_key_not_injective [of 100 live]
  have "getCandlesWithCache ''A'' ''B_C'' 100 (snd (getCandlesWithCache ''A_B'' ''C'' 100 live))
      = getCandlesWithCache ''A_B'' ''C'' 100 live"
    by blast
  with first sent show ?thesis
    by simp
qed

section \<open>Further properties\<close>

text \<open>
  A settled promise of a pull query keeps its state through every sequence of tasks, from
  any state of the client.
\<close>

lemma settled_promise_stable:
  assumes "r < length (pulls s)" and "promise_of r s \<noteq> Pending"
  shows "promise_of r (run ts s) = promise_of r s"
proof -
  have "later r s (run ts s)"
    by (rule later_run)
  with assms show ?thesis
    by (simp add: later_def promise_of_def)
qed

lemma settled_promise_stable_witness:
  "promise_of 0 (run [QueryTimeout 0, Inbound (Symbols [''EURUSD'']), CallDisconnect]
                   (run [CallGetSymbols, Inbound (Symbols [''EURUSD'', ''GBPUSD''])] live))
     = Resolved (VSymbols [''EURUSD'', ''GBPUSD''])"
proof -
  let ?s = "run [CallGetSymbols, Inbound (Symbols [''EURUSD'', ''GBPUSD''])] live"
  have r: "0 < length (pulls ?s)"
    by code_simp
  have v: "promise_of 0 ?s = Resolved (VSymbols [''EURUSD'', ''GBPUSD''])"
    by code_simp
  then have "promise_of 0 ?s \<noteq> Pending"
    by simp
  from settled_promise_stable [OF r this] v show ?thesis
    by simp
qed

lemma pingInterval_emit [simp]: "pingInterval (emit ev e s) = pingInterval s"
  by (rule emit_frame)

text \<open>
  \<^verbatim>\<open>disconnect()\<close> drops the socket, the subscriptions and the pending subscriptions, resets
  the attempt counter and stops the heartbeat and the reconnection timer it holds.
\<close>

lemma disconnect_clears:
  "socket (disconnect s) = None \<and> \<not> isConnected (disconnect s)
   \<and> subscribers (disconnect s) = [] \<and> pendingSubscriptions (disconnect s) = []
   \<and> reconnectAttempts (disconnect s) = 0 \<and> reconnectTimer (disconnect s) = None
   \<and> \<not> pingInterval (disconnect s)"
proof -
  have ping: "\<not> pingInterval (clearTimers s)" for s
    by (simp add: clearTimers_def Let_def split: option.splits)
  have "\<not> pingInterval (on_disconnect reason s)" for reason s
    using ping [of "s\<lparr>isConnected := False\<rparr>"]
    by (simp add: on_disconnect_def Let_def scheduleReconnection_def emit_frame)
  then have "\<not> pingInterval (disconnect s)"
    using ping [of s]
    by (simp add: disconnect_def Let_def socket_disconnect_def split: option.splits)
  moreover have "socket (disconnect s) = None"
    by (simp add: disconnect_def Let_def)
  ultimately show ?thesis
    by (simp add: disconnect_timers) (simp add: disconnect_def Let_def)
qed

text \<open>
  \<^verbatim>\<open>connect()\<close> changes nothing when the client is connected or an attempt is in progress;
  otherwise it starts an attempt, and a second call during the attempt starts no other.
\<close>

lemma connect_idempotent:
  "(isConnected s \<longrightarrow> connect s = s)
   \<and> (isConnecting s \<and> connectionPromise s \<noteq> None \<longrightarrow> connect s = s)
   \<and> (\<not> isConnected s \<and> \<not> (isConnecting s \<and> connectionPromise s \<noteq> None) \<longrightarrow>
        isConnecting (connect s) \<and> connectionPromise (connect s) = Some None
        \<and> connect (connect s) = connect s)"
  by (simp add: connect_def setupSocketListeners_def)

lemma connect_idempotent_witness:
  "connect live = live \<and> isConnecting (connect initial)
   \<and> connect (connect initial) = connect initial"
proof -
  have a: "isConnected live" by code_simp
  have b: "\<not> isConnected initial" "\<not> (isConnecting initial \<and> connectionPromise initial \<noteq> None)"
    by (simp_all add: initial_def)
  from connect_idempotent [of live] connect_idempotent [of initial] a b show ?thesis
    by blast
qed

text \<open>
  Removing the last callback of a symbol deletes the subscription and, when the client is
  connected, sends one \<^verbatim>\<open>unsubscribe\<close> message.
\<close>

lemma unsubscribe_last:
  assumes "map_of (subscribers s) symbol = Some callbacks" and "set callbacks \<subseteq> {cb}"
  shows "map_of (subscribers (unsubscribe symbol (Some cb) s)) symbol = None
       \<and> trace (unsubscribe symbol (Some cb) s)
           = (if socket s \<noteq> None \<and> isConnected s then trace s @ [Send (Unsubscribe symbol)]
              else trace s)"
proof -
  have "removeAll cb callbacks = []"
    using assms(2) by (induction callbacks) auto
  with assms(1) show ?thesis
    by (auto simp: unsubscribe_def sendUnsubscribe_def send_def Let_def delete_conv')
qed

lemma unsubscribe_last_witness:
  "map_of (subscribers (unsubscribe ''EURUSD'' (Some 1) (subscribe ''EURUSD'' 1 live))) ''EURUSD''
     = None
   \<and> trace (unsubscribe ''EURUSD'' (Some 1) (subscribe ''EURUSD'' 1 live))
     = [Emit Connected, Send (Subscribe ''EURUSD'' ''M5''), Send (Unsubscribe ''EURUSD'')]"
proof -
  let ?s = "subscribe ''EURUSD'' 1 live"
  have a: "map_of (subscribers ?s) ''EURUSD'' = Some [1]"
    by code_simp
  have b: "set [1::nat] \<subseteq> {1}"
    by simp
  have c: "socket ?s \<noteq> None \<and> isConnected ?s"
    by code_simp
  have d: "trace ?s = [Emit Connected, Send (Subscribe ''EURUSD'' ''M5'')]"
    by code_simp
  from unsubscribe_last [OF a b] c d show ?thesis
    by simp
qed

text \<open>
  While candles are cached for a key and no promise is in flight, a call returns the cached
  candles and sends nothing; once the invalidation timer has fired, the next call on a
  connected client sends a new \<^verbatim>\<open>get_candles\<close> message.
\<close>

lemma cache_expiry:
  assumes "socket s \<noteq> None" and "isConnected s"
    and "map_of (candlesPromises s) (cacheKey symbol timeframe count) = None"
    and "map_of (candlesCache s) (cacheKey symbol timeframe count) = Some candles"
    and "cacheKey symbol timeframe count \<in> set (cacheTimers s)"
    and "expired = cache_expire (cacheKey symbol timeframe count) s"
  shows "getCandlesWithCache symbol timeframe count s = (Cached candles, s)
       \<and> fst (getCandlesWithCache symbol timeframe count expired) = Follows (length (pulls s))
       \<and> trace (snd (getCandlesWithCache symbol timeframe count expired))
           = trace s @ [Send (GetCandles symbol timeframe count)]"
proof -
  let ?key = "cacheKey symbol timeframe count"
  have hit: "getCandlesWithCache symbol timeframe count s = (Cached candles, s)"
    using assms(3,4) by (simp add: getCandlesWithCache_def)
  have e: "expired = s\<lparr>cacheTimers := remove1 ?key (cacheTimers s),
                        candlesCache := AList.delete ?key (candlesCache s)\<rparr>"
    using assms(5,6) by (simp add: cache_expire_def)
  have conn: "socket expired \<noteq> None" "isConnected expired"
    using assms(1,2) by (simp_all add: e)
  have none: "map_of (candlesPromises expired) ?key = None" "map_of (candlesCache expired) ?key = None"
    using assms(3) by (simp_all add: e delete_conv')
  from first_call(1,2) [OF conn none] hit show ?thesis
    by (simp add: e)
qed

lemma cache_expiry_witness:
  "fst (getCandlesWithCache ''BTCUSD'' ''M5'' 100
          (run [CallGetCandlesWithCache ''BTCUSD'' ''M5'' 100,
                Inbound (Candles ''BTCUSD'' ''M5'' (Some [Candle 1]))] live))
     = Cached (VCandles [Candle 1])
   \<and> fst (getCandlesWithCache ''BTCUSD'' ''M5'' 100
          (cache_expire (cacheKey ''BTCUSD'' ''M5'' 100)
             (run [CallGetCandlesWithCache ''BTCUSD'' ''M5'' 100,
                   Inbound (Candles ''BTCUSD'' ''M5'' (Some [Candle 1]))] live)))
     = Follows 1"
proof -
  let ?s = "run [CallGetCandlesWithCache ''BTCUSD'' ''M5'' 100,
                Inbound (Candles ''BTCUSD'' ''M5'' (Some [Candle 1]))] live"
  have conn: "socket ?s \<noteq> None" "isConnected ?s"
    by code_simp+
  have p: "map_of (candlesPromises ?s) (cacheKey ''BTCUSD'' ''M5'' 100) = None"
    by code_simp
  have c: "map_of (candlesCache ?s) (cacheKey ''BTCUSD'' ''M5'' 100) = Some (VCandles [Candle 1])"
    by code_simp
  have t: "cacheKey ''BTCUSD'' ''M5'' 100 \<in> set (cacheTimers ?s)"
    by code_simp
  have n: "length (pulls ?s) = 1"
    by code_simp
  from cache_expiry [OF conn p c t refl] n show ?thesis
    by simp
qed

end
